theory Spec2Isabelle
  imports Main "HOL-Library.Multiset"
begin

section \<open>gostore: RESP codec, command handlers and append-only file\<close>

text \<open>
  A shallow embedding of resp.go, handler.go, aof.go and the main loop of the gostore
  server. Go strings and byte slices are \<open>string\<close> (lists of 8-bit characters),
  Go \<open>int\<close> is \<open>int\<close> (the 64-bit range is written out where strconv checks it),
  the global maps are partial functions, and every returned error or panic is a value
  of type \<open>error\<close>.
\<close>

subsection \<open>resp.go: values\<close>

text \<open>
  The struct \<open>Value\<close> with its five fields. The variant is the string tag \<open>typ\<close>
  (here \<open>typ'\<close>, as \<open>typ\<close> is a keyword of the language); the zero value
  \<open>Value{}\<close> is \<open>Value [] [] 0 [] []\<close>. A nil slice and an empty slice are both the
  empty list: the code only takes their length and indexes them.
\<close>

datatype Value = Value (typ': string) (str: string) (num: int) (bulk: string) (array: "Value list")

text \<open>
  Errors and panics. \<open>EOF\<close> is io.EOF, \<open>ErrSyntax\<close> and \<open>ErrRange\<close> are the two
  strconv errors, \<open>PanicMakeslice\<close> is the runtime panic of \<open>make\<close> with a length out of
  range and \<open>PanicIndex\<close> the runtime panic of an index out of range.
\<close>

datatype error = EOF | ErrSyntax | ErrRange | PanicMakeslice | PanicIndex

definition CR :: char where "CR = CHR 0x0D"
definition LF :: char where "LF = CHR 0x0A"
definition ARRAY :: char where "ARRAY = CHR ''*''"
definition BULK :: char where "BULK = CHR ''$''"
definition STRING :: char where "STRING = CHR ''+''"
definition ERROR :: char where "ERROR = CHR ''-''"

subsection \<open>The buffered reader\<close>

text \<open>
  \<open>newrESP\<close> wraps its byte source in a \<open>bufio.Reader\<close> of the default size, 4096
  bytes. The reader is modelled by the unread part of its buffer, \<open>buf\<close>, and the bytes
  the source has not delivered yet, \<open>src\<close>. The source is a byte sequence that is
  fully available (a file, as in \<open>Aof.Read\<close>): one read of the source into a slice of
  length n delivers \<open>min n (length src)\<close> bytes.

  \<^item> \<open>ReadByte\<close> takes the next byte of the buffer; on an empty buffer it first fills
    the buffer with one read of up to 4096 bytes and fails with \<open>EOF\<close> when the source
    is exhausted.
  \<^item> \<open>ReaderRead n\<close> is \<open>bufio.Reader.Read\<close> on a slice of length n. It copies what
    the buffer holds, at most n bytes, and does not touch the source while the buffer
    is not empty, so it may deliver fewer than n bytes. On an empty buffer it reads
    the source once: directly into the slice when n is at least the buffer size, else
    into the buffer, from which it then copies.
\<close>

definition bufSize :: nat where "bufSize = 4096"

record Reader =
  buf :: string
  src :: string

definition newrESP :: "string \<Rightarrow> Reader" where
  "newrESP rd = \<lparr>buf = [], src = rd\<rparr>"

definition ReadByte :: "Reader \<Rightarrow> (error + char) \<times> Reader" where
  "ReadByte r =
     (case buf r of
        c # cs \<Rightarrow> (Inr c, r\<lparr>buf := cs\<rparr>)
      | [] \<Rightarrow>
          (case take bufSize (src r) of
             [] \<Rightarrow> (Inl EOF, r)
           | c # cs \<Rightarrow> (Inr c, \<lparr>buf = cs, src = drop bufSize (src r)\<rparr>)))"

definition ReaderRead :: "nat \<Rightarrow> Reader \<Rightarrow> string \<times> Reader" where
  "ReaderRead n r =
     (if n = 0 then ([], r)
      else if buf r = [] then
        (if n \<ge> bufSize then (take n (src r), r\<lparr>src := drop n (src r)\<rparr>)
         else (let b = take bufSize (src r) in
               (take n b, \<lparr>buf = drop n b, src = drop bufSize (src r)\<rparr>)))
      else (take n (buf r), r\<lparr>buf := drop n (buf r)\<rparr>))"

text \<open>
  The bytes not yet consumed, \<open>stream\<close>, and their number, the measure of every loop
  over the reader.
\<close>

definition stream :: "Reader \<Rightarrow> string" where
  "stream r = buf r @ src r"

definition unread :: "Reader \<Rightarrow> nat" where
  "unread r = length (buf r) + length (src r)"

subsection \<open>resp.go: readLine and readInteger\<close>

text \<open>
  \<open>readLine\<close> is the loop \<open>for { b := ReadByte(); n += 1; line = append(line, b);
  if len(line) >= 2 && line[len(line)-2] == CR { break } }\<close>, returning
  \<open>line[:len(line)-2]\<close>. A failing \<open>ReadByte\<close> ends it with that error.
\<close>

function readLine_loop :: "string \<Rightarrow> int \<Rightarrow> Reader \<Rightarrow> (error + string \<times> int) \<times> Reader" where
  "readLine_loop line n r =
     (case ReadByte r of
        (Inl e, r1) \<Rightarrow> (Inl e, r1)
      | (Inr b, r1) \<Rightarrow>
          (let n1 = n + 1; line1 = line @ [b] in
           if length line1 \<ge> 2 \<and> line1 ! (length line1 - 2) = CR
           then (Inr (take (length line1 - 2) line1, n1), r1)
           else readLine_loop line1 n1 r1))"
  by pat_completeness auto

lemma take_Cons_length: "take n s = c # cs \<Longrightarrow> Suc (length cs + length (drop n s)) = length s"
proof -
  assume a: "take n s = c # cs"
  have "length (take n s) + length (drop n s) = length s"
    by (metis append_take_drop_id length_append)
  with a show ?thesis by simp
qed

lemma ReadByte_unread: "ReadByte r = (Inr c, r1) \<Longrightarrow> unread r1 < unread r"
  by (auto simp: ReadByte_def unread_def split: list.splits dest!: take_Cons_length)

lemma ReadByte_unread_le: "unread (snd (ReadByte r)) \<le> unread r"
  by (auto simp: ReadByte_def unread_def split: list.splits dest!: take_Cons_length)

termination readLine_loop
  apply (relation "measure (\<lambda>(line, n, r). unread r)")
   apply simp
  apply (simp add: ReadByte_unread[OF sym])
  done

declare readLine_loop.simps [simp del]

definition readLine :: "Reader \<Rightarrow> (error + string \<times> int) \<times> Reader" where
  "readLine r = readLine_loop [] 0 r"

text \<open>
  \<open>strconv.ParseInt(s, 10, 64)\<close> of the Go library, with its inner loop
  \<open>ParseUint\<close>: an optional sign, then decimal digits only, accumulated with the
  library's two overflow checks, and the final range check against \<open>2 ^ 63\<close>.
  \<open>strconv.Itoa\<close> writes the decimal digits, with a minus sign for a negative
  number.
\<close>

definition is_digit :: "char \<Rightarrow> bool" where
  "is_digit c = (48 \<le> (of_char c :: nat) \<and> (of_char c :: nat) \<le> 57)"

definition digit_val :: "char \<Rightarrow> nat" where
  "digit_val c = of_char c - 48"

definition maxUint64 :: nat where "maxUint64 = 2 ^ 64 - 1"

fun ParseUint_loop :: "string \<Rightarrow> nat \<Rightarrow> error + nat" where
  "ParseUint_loop [] n = Inr n"
| "ParseUint_loop (c # cs) n =
     (if \<not> is_digit c then Inl ErrSyntax
      else if n \<ge> maxUint64 div 10 + 1 then Inl ErrRange
      else (let n1 = n * 10 + digit_val c in
            if n1 > maxUint64 then Inl ErrRange else ParseUint_loop cs n1))"

definition ParseUint :: "string \<Rightarrow> error + nat" where
  "ParseUint s = (if s = [] then Inl ErrSyntax else ParseUint_loop s 0)"

definition ParseInt :: "string \<Rightarrow> error + int" where
  "ParseInt s0 =
     (if s0 = [] then Inl ErrSyntax
      else (let neg = (hd s0 = CHR ''-'');
                s = (if hd s0 = CHR ''+'' \<or> hd s0 = CHR ''-'' then tl s0 else s0) in
            case ParseUint s of
              Inl ErrSyntax \<Rightarrow> Inl ErrSyntax
            | Inl e \<Rightarrow> Inl ErrRange
            | Inr un \<Rightarrow>
                if \<not> neg \<and> un \<ge> 2 ^ 63 then Inl ErrRange
                else if neg \<and> un > 2 ^ 63 then Inl ErrRange
                else Inr (if neg then - int un else int un)))"

fun formatDecimal :: "nat \<Rightarrow> string" where
  "formatDecimal n =
     (if n < 10 then [char_of (48 + n)]
      else formatDecimal (n div 10) @ [char_of (48 + n mod 10)])"

declare formatDecimal.simps [simp del]

definition Itoa :: "int \<Rightarrow> string" where
  "Itoa i = (if i < 0 then CHR ''-'' # formatDecimal (nat (- i)) else formatDecimal (nat i))"

definition readInteger :: "Reader \<Rightarrow> (error + int \<times> int) \<times> Reader" where
  "readInteger r =
     (case readLine r of
        (Inl e, r1) \<Rightarrow> (Inl e, r1)
      | (Inr (line, n), r1) \<Rightarrow>
          (case ParseInt line of
             Inl e \<Rightarrow> (Inl e, r1)
           | Inr i64 \<Rightarrow> (Inr (i64, n), r1)))"

subsection \<open>resp.go: Read, readArray, readBulk\<close>

text \<open>
  \<open>readBulk\<close> allocates \<open>make([]byte, len)\<close>, which panics for a negative length
  (and for one beyond the allocation limit of the runtime, \<open>2 ^ 48\<close> bytes on 64-bit
  platforms). The slice starts as zero bytes; \<open>r.reader.Read(bulk)\<close> overwrites its
  first bytes with what it delivers, and its results are discarded, as are those of the
  final \<open>readLine\<close>. A \<open>Value\<close> returned together with an error is dropped: no caller
  looks at it.
\<close>

definition maxAlloc :: int where "maxAlloc = 2 ^ 48"

definition readBulk :: "Reader \<Rightarrow> (error + Value) \<times> Reader" where
  "readBulk r =
     (case readInteger r of
        (Inl e, r1) \<Rightarrow> (Inl e, r1)
      | (Inr (len, _), r1) \<Rightarrow>
          if len < 0 \<or> len > maxAlloc then (Inl PanicMakeslice, r1)
          else (let (got, r2) = ReaderRead (nat len) r1;
                    bulk = got @ replicate (nat len - length got) (CHR 0x00);
                    (_, r3) = readLine r2
                in (Inr (Value ''bulk'' [] 0 bulk []), r3)))"

text \<open>
  \<open>Read\<close> and \<open>readArray\<close> call each other; the \<open>for\<close> loop of \<open>readArray\<close>
  is \<open>readArray_loop\<close>, with the counter i and the elements read so far.
\<close>

function Read :: "Reader \<Rightarrow> (error + Value) \<times> Reader"
  and readArray :: "Reader \<Rightarrow> (error + Value) \<times> Reader"
  and readArray_loop :: "int \<Rightarrow> int \<Rightarrow> Value list \<Rightarrow> Reader \<Rightarrow> (error + Value) \<times> Reader"
where
  "Read r =
     (case ReadByte r of
        (Inl e, r1) \<Rightarrow> (Inl e, r1)
      | (Inr t, r1) \<Rightarrow>
          if t = ARRAY then readArray r1
          else if t = BULK then readBulk r1
          else (Inr (Value [] [] 0 [] []), r1))"
| "readArray r =
     (case readInteger r of
        (Inl e, r1) \<Rightarrow> (Inl e, r1)
      | (Inr (len, _), r1) \<Rightarrow> readArray_loop 0 len [] r1)"
| "readArray_loop i len vs r =
     (if i < len then
        (case Read r of
           (Inl e, r1) \<Rightarrow> (Inl e, r1)
         | (Inr val, r1) \<Rightarrow> readArray_loop (i + 1) len (vs @ [val]) r1)
      else (Inr (Value ''array'' [] 0 [] vs), r))"
  by pat_completeness auto


text \<open>
  Termination: no operation gives bytes back to the reader, and a successful \<open>Read\<close>
  consumes at least its marker byte.
\<close>

lemma readLine_loop_unread: "unread (snd (readLine_loop line n r)) \<le> unread r"
proof (induction line n r rule: readLine_loop.induct)
  case (1 line n r)
  show ?case
  proof (cases "ReadByte r")
    case (Pair x r1)
    have le: "unread r1 \<le> unread r"
      using ReadByte_unread_le[of r] Pair by simp
    show ?thesis
    proof (cases x)
      case (Inl e)
      with Pair le show ?thesis
        by (simp add: readLine_loop.simps[of line n r])
    next
      case (Inr b)
      show ?thesis
      proof (cases "length (line @ [b]) \<ge> 2 \<and> (line @ [b]) ! (length (line @ [b]) - 2) = CR")
        case True
        with Pair Inr le show ?thesis
          by (simp add: readLine_loop.simps[of line n r] Let_def)
      next
        case False
        have "unread (snd (readLine_loop (line @ [b]) (n + 1) r1)) \<le> unread r1"
          using "1.IH"[OF Pair[symmetric] Inr refl refl False] .
        with Pair Inr le False show ?thesis
          by (simp add: readLine_loop.simps[of line n r] Let_def)
      qed
    qed
  qed
qed

lemma readLine_unread: "unread (snd (readLine r)) \<le> unread r"
  by (simp add: readLine_def readLine_loop_unread)

lemma readInteger_unread: "unread (snd (readInteger r)) \<le> unread r"
  using readLine_unread[of r]
  by (auto simp: readInteger_def split: prod.splits sum.splits)

lemma ReaderRead_unread: "unread (snd (ReaderRead n r)) \<le> unread r"
  by (auto simp: ReaderRead_def unread_def Let_def)

lemma readBulk_unread: "unread (snd (readBulk r)) \<le> unread r"
proof (cases "readInteger r")
  case (Pair x r1)
  have a: "unread r1 \<le> unread r" using readInteger_unread[of r] Pair by simp
  show ?thesis
  proof (cases x)
    case (Inl e)
    with Pair a show ?thesis by (simp add: readBulk_def)
  next
    case (Inr p)
    obtain len n where p: "p = (len, n)" by (cases p)
    show ?thesis
    proof (cases "len < 0 \<or> len > maxAlloc")
      case True
      with Pair Inr p a show ?thesis by (auto simp: readBulk_def)
    next
      case False
      obtain got r2 where g: "ReaderRead (nat len) r1 = (got, r2)" by (cases "ReaderRead (nat len) r1")
      obtain x3 r3 where l: "readLine r2 = (x3, r3)" by (cases "readLine r2")
      have "unread r2 \<le> unread r1" using ReaderRead_unread[of "nat len" r1] g by simp
      moreover have "unread r3 \<le> unread r2" using readLine_unread[of r2] l by simp
      ultimately have "unread r3 \<le> unread r" using a by simp
      with Pair Inr p False g l show ?thesis by (simp add: readBulk_def Let_def)
    qed
  qed
qed

lemma Read_unread_dom:
  shows "Read_readArray_readArray_loop_dom (Inl r) \<Longrightarrow>
           unread (snd (Read r)) \<le> unread r \<and> (\<forall>v r'. Read r = (Inr v, r') \<longrightarrow> unread r' < unread r)"
    and "Read_readArray_readArray_loop_dom (Inr (Inl r0)) \<Longrightarrow> unread (snd (readArray r0)) \<le> unread r0"
    and "Read_readArray_readArray_loop_dom (Inr (Inr (i, len, vs, r1))) \<Longrightarrow>
           unread (snd (readArray_loop i len vs r1)) \<le> unread r1"
proof (induct rule: Read_readArray_readArray_loop.pinduct)
  case (1 r)
  show ?case
  proof (cases "ReadByte r")
    case (Pair x y)
    show ?thesis
    proof (cases x)
      case (Inl e)
      with Pair ReadByte_unread_le[of r] "1.hyps"(1) show ?thesis
        by (simp add: Read.psimps)
    next
      case (Inr t)
      have lt: "unread y < unread r" using ReadByte_unread Pair Inr by simp
      consider "t = ARRAY" | "t \<noteq> ARRAY" "t = BULK" | "t \<noteq> ARRAY" "t \<noteq> BULK" by blast
      then show ?thesis
      proof cases
        case 1
        have "unread (snd (readArray y)) \<le> unread y"
          using "1.hyps"(2)[OF Pair[symmetric] Inr 1] .
        with lt Pair Inr 1 "1.hyps"(1) show ?thesis
          by (auto simp: Read.psimps)
      next
        case 2
        with lt Pair Inr "1.hyps"(1) readBulk_unread[of y] show ?thesis
          by (auto simp: Read.psimps)
      next
        case 3
        with lt Pair Inr "1.hyps"(1) show ?thesis
          by (auto simp: Read.psimps)
      qed
    qed
  qed
next
  case (2 r)
  show ?case
  proof (cases "readInteger r")
    case (Pair x y)
    have le: "unread y \<le> unread r" using readInteger_unread[of r] Pair by simp
    show ?thesis
    proof (cases x)
      case (Inl e)
      with Pair le "2.hyps"(1) show ?thesis by (simp add: readArray.psimps)
    next
      case (Inr b)
      obtain len n where b: "b = (len, n)" by (cases b)
      have "unread (snd (readArray_loop 0 len [] y)) \<le> unread y"
        using "2.hyps"(2)[OF Pair[symmetric] Inr b[symmetric]] .
      with Pair Inr b le "2.hyps"(1) show ?thesis by (simp add: readArray.psimps)
    qed
  qed
next
  case (3 i len vs r)
  show ?case
  proof (cases "i < len")
    case False
    with "3.hyps"(1) show ?thesis by (simp add: readArray_loop.psimps)
  next
    case True
    note P = "3.hyps"(2)[OF True]
    show ?thesis
    proof (cases "Read r")
      case (Pair x y)
      have le: "unread y \<le> unread r" using P Pair by simp
      show ?thesis
      proof (cases x)
        case (Inl e)
        with Pair le True "3.hyps"(1) show ?thesis by (simp add: readArray_loop.psimps)
      next
        case (Inr v)
        have "unread (snd (readArray_loop (i + 1) len (vs @ [v]) y)) \<le> unread y"
          using "3.hyps"(3)[OF True Pair[symmetric] Inr] .
        with Pair Inr le True "3.hyps"(1) show ?thesis by (simp add: readArray_loop.psimps)
      qed
    qed
  qed
qed

termination Read
proof (relation "measure (\<lambda>x. case x of
          Inl r \<Rightarrow> 3 * unread r
        | Inr (Inl r) \<Rightarrow> 3 * unread r + 2
        | Inr (Inr (i, len, vs, r)) \<Rightarrow> 3 * unread r + 1)", goal_cases)
  case 1
  show ?case by simp
next
  case (2 r x y b)
  then show ?case using ReadByte_unread[of r b y] by simp
next
  case (3 r x y b xa ya)
  then show ?case using readInteger_unread[of r] by (simp add: snd_def split: prod.splits)
next
  case (4 i len vs r)
  then show ?case by simp
next
  case (5 i len vs r x y b)
  from 5 have "Read r = (Inr b, y)" by simp
  moreover from 5 have "Read_readArray_readArray_loop_dom (Inl r)" by simp
  ultimately have "unread y < unread r" using Read_unread_dom(1)[of r] by blast
  then show ?case by simp
qed

declare Read.simps [simp del] readArray.simps [simp del] readArray_loop.simps [simp del]


lemma Read_unread_all:
  shows "unread (snd (Read r)) \<le> unread r \<and> (\<forall>v r'. Read r = (Inr v, r') \<longrightarrow> unread r' < unread r)"
    and "unread (snd (readArray r0)) \<le> unread r0"
    and "unread (snd (readArray_loop i len vs r1)) \<le> unread r1"
proof (induct rule: Read_readArray_readArray_loop.induct)
  case (1 r)
  show ?case
  proof (cases "ReadByte r")
    case (Pair x y)
    show ?thesis
    proof (cases x)
      case (Inl e)
      with Pair ReadByte_unread_le[of r] show ?thesis
        by (simp add: Read.simps)
    next
      case (Inr t)
      have lt: "unread y < unread r" using ReadByte_unread Pair Inr by simp
      consider "t = ARRAY" | "t \<noteq> ARRAY" "t = BULK" | "t \<noteq> ARRAY" "t \<noteq> BULK" by blast
      then show ?thesis
      proof cases
        case 1
        have "unread (snd (readArray y)) \<le> unread y"
          using "1.hyps"(1)[OF Pair[symmetric] Inr 1] .
        with lt Pair Inr 1 show ?thesis
          by (auto simp: Read.simps)
      next
        case 2
        with lt Pair Inr readBulk_unread[of y] show ?thesis
          by (auto simp: Read.simps)
      next
        case 3
        with lt Pair Inr show ?thesis
          by (auto simp: Read.simps)
      qed
    qed
  qed
next
  case (2 r)
  show ?case
  proof (cases "readInteger r")
    case (Pair x y)
    have le: "unread y \<le> unread r" using readInteger_unread[of r] Pair by simp
    show ?thesis
    proof (cases x)
      case (Inl e)
      with Pair le show ?thesis by (simp add: readArray.simps)
    next
      case (Inr b)
      obtain len n where b: "b = (len, n)" by (cases b)
      have "unread (snd (readArray_loop 0 len [] y)) \<le> unread y"
        using "2.hyps"(1)[OF Pair[symmetric] Inr b[symmetric]] .
      with Pair Inr b le show ?thesis by (simp add: readArray.simps)
    qed
  qed
next
  case (3 i len vs r)
  show ?case
  proof (cases "i < len")
    case False
    then show ?thesis by (simp add: readArray_loop.simps)
  next
    case True
    note P = "3.hyps"(1)[OF True]
    show ?thesis
    proof (cases "Read r")
      case (Pair x y)
      have le: "unread y \<le> unread r" using P Pair by simp
      show ?thesis
      proof (cases x)
        case (Inl e)
        with Pair le True show ?thesis by (simp add: readArray_loop.simps)
      next
        case (Inr v)
        have "unread (snd (readArray_loop (i + 1) len (vs @ [v]) y)) \<le> unread y"
          using "3.hyps"(2)[OF True Pair[symmetric] Inr] .
        with Pair Inr le True show ?thesis by (simp add: readArray_loop.simps)
      qed
    qed
  qed
qed

lemma Read_unread: "Read r = (Inr v, r1) \<Longrightarrow> unread r1 < unread r"
  using Read_unread_all(1)[of r] by simp

subsection \<open>resp.go: Marshal\<close>

text \<open>
  \<open>Marshal\<close> with its five cases and the empty default; \<open>marshalArray\<close> appends
  the encodings of the elements in order.
\<close>

fun Marshal :: "Value \<Rightarrow> string" where
  "Marshal (Value t s n b a) =
     (if t = ''array'' then
        [ARRAY] @ Itoa (int (length a)) @ [CR, LF] @ concat (map Marshal a)
      else if t = ''bulk'' then
        [BULK] @ Itoa (int (length b)) @ [CR, LF] @ b @ [CR, LF]
      else if t = ''string'' then [STRING] @ s @ [CR, LF]
      else if t = ''null'' then ''$-1'' @ [CR, LF]
      else if t = ''error'' then [ERROR] @ s @ [CR, LF]
      else [])"

subsection \<open>handler.go\<close>

text \<open>
  The two global maps \<open>SETs\<close> and \<open>HSETs\<close> form the store; a handler takes its
  arguments and the store and returns its reply and the store. (The handler \<open>set\<close> is
  named \<open>set_h\<close>, as \<open>set\<close> is the HOL function from lists to sets.)

  \<open>hgetall\<close> ranges over a Go map, in an order the language leaves open. The order
  is a parameter \<open>iter\<close>: the list of pairs in which \<open>range\<close> visits a map.
  \<open>range_order m kvs\<close> says that kvs is such a visit of m: every entry once.
\<close>

record Store =
  SETs :: "string \<rightharpoonup> string"
  HSETs :: "string \<rightharpoonup> (string \<rightharpoonup> string)"

definition Store0 :: Store where
  "Store0 = \<lparr>SETs = Map.empty, HSETs = Map.empty\<rparr>"

type_synonym handler = "Value list \<Rightarrow> Store \<Rightarrow> Value \<times> Store"

type_synonym range_iter = "(string \<rightharpoonup> string) \<Rightarrow> (string \<times> string) list"

definition ping :: handler where
  "ping args st =
     (if length args = 0 then (Value ''string'' ''PONG'' 0 [] [], st)
      else (Value ''string'' (bulk (args ! 0)) 0 [] [], st))"

definition set_h :: handler where
  "set_h args st =
     (if length args \<noteq> 2 then
        (Value ''error'' ''ERR wrong number of arguments for 'set' command'' 0 [] [], st)
      else (let key = bulk (args ! 0); value = bulk (args ! 1)
            in (Value ''string'' ''OK'' 0 [] [], st\<lparr>SETs := (SETs st)(key \<mapsto> value)\<rparr>)))"

definition get :: handler where
  "get args st =
     (if length args \<noteq> 1 then
        (Value ''error'' ''ERR wrong number of arguments for 'get' command'' 0 [] [], st)
      else (let key = bulk (args ! 0) in
            case SETs st key of
              None \<Rightarrow> (Value ''null'' [] 0 [] [], st)
            | Some value \<Rightarrow> (Value ''bulk'' [] 0 value [], st)))"

definition hset :: handler where
  "hset args st =
     (if length args \<noteq> 3 then
        (Value ''error'' ''ERR wrong number of arguments for 'hset' command'' 0 [] [], st)
      else (let hash = bulk (args ! 0); key = bulk (args ! 1); value = bulk (args ! 2);
                h = (case HSETs st hash of None \<Rightarrow> Map.empty | Some m \<Rightarrow> m)
            in (Value ''string'' ''OK'' 0 [] [], st\<lparr>HSETs := (HSETs st)(hash \<mapsto> h(key \<mapsto> value))\<rparr>)))"

definition hget :: handler where
  "hget args st =
     (if length args \<noteq> 2 then
        (Value ''error'' ''ERR wrong number of arguments for 'hget' command'' 0 [] [], st)
      else (let hash = bulk (args ! 0); key = bulk (args ! 1) in
            case (case HSETs st hash of None \<Rightarrow> None | Some m \<Rightarrow> m key) of
              None \<Rightarrow> (Value ''null'' [] 0 [] [], st)
            | Some value \<Rightarrow> (Value ''bulk'' [] 0 value [], st)))"

definition range_order :: "(string \<rightharpoonup> string) \<Rightarrow> (string \<times> string) list \<Rightarrow> bool" where
  "range_order m kvs = (distinct (map fst kvs) \<and> map_of kvs = m)"

fun hgetall_loop :: "(string \<times> string) list \<Rightarrow> Value list \<Rightarrow> Value list" where
  "hgetall_loop [] values = values"
| "hgetall_loop ((k, v) # kvs) values =
     hgetall_loop kvs ((values @ [Value ''bulk'' [] 0 k []]) @ [Value ''bulk'' [] 0 v []])"

definition hgetall :: "range_iter \<Rightarrow> handler" where
  "hgetall iter args st =
     (if length args \<noteq> 1 then
        (Value ''error'' ''ERR wrong number of arguments for 'hgetall' command'' 0 [] [], st)
      else (let hash = bulk (args ! 0) in
            case HSETs st hash of
              None \<Rightarrow> (Value ''null'' [] 0 [] [], st)
            | Some value \<Rightarrow> (Value ''array'' [] 0 [] (hgetall_loop (iter value) []), st)))"

definition Handlers :: "range_iter \<Rightarrow> string \<rightharpoonup> handler" where
  "Handlers iter = map_of
     [(''PING'', ping), (''SET'', set_h), (''GET'', get), (''HSET'', hset),
      (''HGET'', hget), (''HGETALL'', hgetall iter)]"

subsection \<open>aof.go\<close>

text \<open>
  The file is opened without \<open>O_APPEND\<close>, so it has one offset \<open>pos\<close> for reading and
  writing. \<open>Aof.Write\<close> writes the encoding at the offset. \<open>Aof.Read\<close> seeks to the
  start and decodes through a fresh reader until \<open>Read\<close> fails: \<open>EOF\<close> ends the loop
  without an error, any other error is returned. The callback may panic, which ends
  the loop as well. Afterwards the offset is behind the bytes the reader has taken from
  the file.
\<close>

record Aof =
  "file" :: string
  pos :: nat

definition Aof_Write :: "Value \<Rightarrow> Aof \<Rightarrow> Aof" where
  "Aof_Write value aof =
     (let data = Marshal value in
      \<lparr>file = take (pos aof) (file aof) @ data @ drop (pos aof + length data) (file aof),
       pos = pos aof + length data\<rparr>)"

function Aof_Read_loop ::
  "(Value \<Rightarrow> Store \<Rightarrow> error + Store) \<Rightarrow> Reader \<Rightarrow> Store \<Rightarrow> error option \<times> Store \<times> Reader" where
  "Aof_Read_loop fn reader st =
     (case Read reader of
        (Inl e, r1) \<Rightarrow> if e = EOF then (None, st, r1) else (Some e, st, r1)
      | (Inr value, r1) \<Rightarrow>
          (case fn value st of
             Inl e \<Rightarrow> (Some e, st, r1)
           | Inr st1 \<Rightarrow> Aof_Read_loop fn r1 st1))"
  by pat_completeness auto

termination Aof_Read_loop
  apply (relation "measure (\<lambda>(fn, reader, st). unread reader)")
   apply simp
  apply (simp add: Read_unread[OF sym])
  done

declare Aof_Read_loop.simps [simp del]

definition Aof_Read ::
  "(Value \<Rightarrow> Store \<Rightarrow> error + Store) \<Rightarrow> Aof \<Rightarrow> Store \<Rightarrow> error option \<times> Store \<times> Aof" where
  "Aof_Read fn aof st =
     (let (err, st1, r1) = Aof_Read_loop fn (newrESP (file aof)) st
      in (err, st1, aof\<lparr>pos := length (file aof) - length (src r1)\<rparr>))"

subsection \<open>The main loop\<close>

text \<open>
  \<open>strings.ToUpper\<close> is a parameter of the model. \<open>replay_fn\<close> is the callback that
  \<open>main\<close> hands to \<open>Aof.Read\<close>; indexing \<open>value.array[0]\<close> panics on an empty
  array. \<open>serve\<close> is one iteration of the connection loop after a value has been read:
  the reply written to the client (if any), the store and the file afterwards.
  \<open>serve_all\<close> runs the loop over a sequence of requests.
\<close>

definition replay_fn ::
  "(string \<Rightarrow> string) \<Rightarrow> range_iter \<Rightarrow> Value \<Rightarrow> Store \<Rightarrow> error + Store" where
  "replay_fn ToUpper iter value st =
     (case array value of
        [] \<Rightarrow> Inl PanicIndex
      | v0 # args \<Rightarrow>
          (let command = ToUpper (bulk v0) in
           case Handlers iter command of
             None \<Rightarrow> Inr st
           | Some handler \<Rightarrow> Inr (snd (handler args st))))"

definition serve ::
  "(string \<Rightarrow> string) \<Rightarrow> range_iter \<Rightarrow> Value \<Rightarrow> Store \<times> Aof \<Rightarrow> Value option \<times> Store \<times> Aof" where
  "serve ToUpper iter value sa =
     (let (st, aof) = sa in
      if typ' value \<noteq> ''array'' then (None, st, aof)
      else if length (array value) = 0 then (None, st, aof)
      else (let command = ToUpper (bulk (array value ! 0));
                args = tl (array value) in
            case Handlers iter command of
              None \<Rightarrow> (Some (Value ''string'' [] 0 [] []), st, aof)
            | Some handler \<Rightarrow>
                (let aof1 = (if command = ''SET'' \<or> command = ''HSET'' then Aof_Write value aof else aof);
                     (result, st1) = handler args st
                 in (Some result, st1, aof1))))"

fun serve_all ::
  "(string \<Rightarrow> string) \<Rightarrow> range_iter \<Rightarrow> Value list \<Rightarrow> Store \<times> Aof \<Rightarrow> Store \<times> Aof" where
  "serve_all ToUpper iter [] sa = sa"
| "serve_all ToUpper iter (value # values) sa = serve_all ToUpper iter values (snd (serve ToUpper iter value sa))"

text \<open>
  On ASCII strings \<open>strings.ToUpper\<close> maps the letters a to z to A to Z and leaves every
  other byte; \<open>ToUpper_ascii\<close> is that function, used where a concrete one is needed.
\<close>

definition ToUpper_ascii :: "string \<Rightarrow> string" where
  "ToUpper_ascii s =
     map (\<lambda>c. if 97 \<le> (of_char c :: nat) \<and> (of_char c :: nat) \<le> 122
              then char_of ((of_char c :: nat) - 32) else c) s"

text \<open>
  A request writes the flat key k when it is a \<open>SET\<close> with two arguments whose first
  is k: the only requests for which \<open>serve\<close> changes \<open>SETs\<close> at k.
\<close>

definition writes_key :: "(string \<Rightarrow> string) \<Rightarrow> string \<Rightarrow> Value \<Rightarrow> bool" where
  "writes_key ToUpper k req =
     (typ' req = ''array'' \<and> length (array req) = 3 \<and>
      ToUpper (bulk (array req ! 0)) = ''SET'' \<and> bulk (array req ! 1) = k)"

text \<open>
  The values the decoder can return in full: bulk strings, and arrays of such values,
  with the fields of the other variants unset.
\<close>

fun wire :: "Value \<Rightarrow> bool" where
  "wire (Value t s n b a) =
     (s = [] \<and> n = 0 \<and>
      ((t = ''bulk'' \<and> a = []) \<or> (t = ''array'' \<and> b = [] \<and> (\<forall>x \<in> set a. wire x))))"

text \<open>
  \<open>hset_calls h fvs\<close> is the sequence of calls \<open>HSET h f v\<close> for the pairs (f, v) of
  fvs, in order. \<open>field_value_pairs kvs\<close> is the list of bulk strings field, value,
  field, value, ... for the pairs of kvs.
\<close>

fun hset_calls :: "string \<Rightarrow> (string \<times> string) list \<Rightarrow> Store \<Rightarrow> Store" where
  "hset_calls h [] st = st"
| "hset_calls h ((f, v) # fvs) st =
     hset_calls h fvs (snd (hset [Value ''bulk'' [] 0 h [], Value ''bulk'' [] 0 f [], Value ''bulk'' [] 0 v []] st))"

definition field_value_pairs :: "(string \<times> string) list \<Rightarrow> Value list" where
  "field_value_pairs kvs = concat (map (\<lambda>(f, v). [Value ''bulk'' [] 0 f [], Value ''bulk'' [] 0 v []]) kvs)"

text \<open>
  A \<open>SET\<close> request whose value is 4096 bytes long: its encoding does not fit into the
  reader's buffer.
\<close>

definition long_SET :: Value where
  "long_SET = Value ''array'' [] 0 []
     [Value ''bulk'' [] 0 ''SET'' [], Value ''bulk'' [] 0 ''k'' [],
      Value ''bulk'' [] 0 (replicate 4096 (CHR ''a'')) []]"

text \<open>
  A \<open>SET\<close> request with one argument instead of two. The argument is 4103 bytes long:
  4076 bytes a, then CR LF and the encoding of the request \<open>SET x y\<close> without its last
  two bytes.
\<close>

definition embedded_SET :: string where
  "embedded_SET = ''*3'' @ [CR, LF] @ ''$3'' @ [CR, LF] @ ''SET'' @ [CR, LF] @ ''$1'' @ [CR, LF] @ ''x'' @ [CR, LF] @
     ''$1'' @ [CR, LF] @ ''y''"

definition crafted_SET :: Value where
  "crafted_SET = Value ''array'' [] 0 []
     [Value ''bulk'' [] 0 ''SET'' [],
      Value ''bulk'' [] 0 (replicate 4076 (CHR ''a'') @ [CR, LF] @ embedded_SET) []]"

text \<open>
  \<open>logged\<close> holds of the requests that \<open>serve\<close> writes to the file;
  \<open>wrong_arity_write\<close> holds of those among them whose handler rejects their number of
  arguments. \<open>replay_all\<close> runs a callback over a list of values and stops at the first
  panic.
\<close>

definition logged :: "(string \<Rightarrow> string) \<Rightarrow> Value \<Rightarrow> bool" where
  "logged ToUpper req =
     (typ' req = ''array'' \<and> array req \<noteq> [] \<and>
      (ToUpper (bulk (array req ! 0)) = ''SET'' \<or> ToUpper (bulk (array req ! 0)) = ''HSET''))"

fun replay_all ::
  "(Value \<Rightarrow> Store \<Rightarrow> error + Store) \<Rightarrow> Value list \<Rightarrow> Store \<Rightarrow> error + Store" where
  "replay_all fn [] st = Inr st"
| "replay_all fn (v # vs) st = (case fn v st of Inl e \<Rightarrow> Inl e | Inr st1 \<Rightarrow> replay_all fn vs st1)"

definition wrong_arity_write :: "(string \<Rightarrow> string) \<Rightarrow> Value \<Rightarrow> bool" where
  "wrong_arity_write ToUpper req =
     (typ' req = ''array'' \<and> array req \<noteq> [] \<and>
      ((ToUpper (bulk (array req ! 0)) = ''SET'' \<and> length (array req) \<noteq> 3) \<or>
       (ToUpper (bulk (array req ! 0)) = ''HSET'' \<and> length (array req) \<noteq> 4)))"

section \<open>Properties\<close>

subsection \<open>The reader, lines and integers\<close>

lemma bufSize_pos: "0 < bufSize" by (simp add: bufSize_def)

lemma ReadByte_buf: "buf r = c # cs \<Longrightarrow> ReadByte r = (Inr c, r\<lparr>buf := cs\<rparr>)"
  by (simp add: ReadByte_def)

lemma ReadByte_EOF: "stream r = [] \<Longrightarrow> ReadByte r = (Inl EOF, r)"
  by (simp add: ReadByte_def stream_def)

lemma ReadByte_stream:
  assumes "stream r = c # cs"
  shows "fst (ReadByte r) = Inr c \<and> stream (snd (ReadByte r)) = cs"
proof (cases "buf r")
  case (Cons b bs)
  with assms show ?thesis by (simp add: ReadByte_def stream_def)
next
  case Nil
  with assms have s: "src r = c # cs" by (simp add: stream_def)
  show ?thesis using Nil s by (simp add: ReadByte_def stream_def bufSize_def)
qed

lemma readLine_loop_stream:
  assumes "stream r = xs @ CR # c # rest" "CR \<notin> set xs" "line = [] \<or> last line \<noteq> CR"
  shows "fst (readLine_loop line n r) = Inr (line @ xs, n + int (length xs) + 2) \<and>
         stream (snd (readLine_loop line n r)) = rest"
  using assms
proof (induction xs arbitrary: line n r)
  case Nil
  obtain r1 where r1: "ReadByte r = (Inr CR, r1)" "stream r1 = c # rest"
    using ReadByte_stream[of r CR "c # rest"] Nil.prems(1) by (cases "ReadByte r") auto
  obtain r2 where r2: "ReadByte r1 = (Inr c, r2)" "stream r2 = rest"
    using ReadByte_stream[of r1 c rest] r1(2) by (cases "ReadByte r1") auto
  have n1: "\<not> (2 \<le> length (line @ [CR]) \<and> (line @ [CR]) ! (length (line @ [CR]) - 2) = CR)"
    using Nil.prems(3) by (cases line rule: rev_cases) (auto simp: nth_append)
  have n2: "2 \<le> length ((line @ [CR]) @ [c]) \<and> ((line @ [CR]) @ [c]) ! (length ((line @ [CR]) @ [c]) - 2) = CR"
    by (simp add: nth_append)
  have "readLine_loop line n r = readLine_loop (line @ [CR]) (n + 1) r1"
    using r1(1) n1 by (subst readLine_loop.simps) (auto simp: Let_def)
  also have "\<dots> = (Inr (line, n + 2), r2)"
    using r2(1) n2 by (subst readLine_loop.simps) (auto simp: Let_def)
  finally show ?case using r2(2) by simp
next
  case (Cons x xs)
  obtain r1 where r1: "ReadByte r = (Inr x, r1)" "stream r1 = xs @ CR # c # rest"
    using ReadByte_stream[of r x "xs @ CR # c # rest"] Cons.prems(1) by (cases "ReadByte r") auto
  have x: "x \<noteq> CR" using Cons.prems(2) by auto
  have n1: "\<not> (2 \<le> length (line @ [x]) \<and> (line @ [x]) ! (length (line @ [x]) - 2) = CR)"
    using Cons.prems(3) by (cases line rule: rev_cases) (auto simp: nth_append)
  have step: "readLine_loop line n r = readLine_loop (line @ [x]) (n + 1) r1"
    using r1(1) n1 by (subst readLine_loop.simps) (auto simp: Let_def)
  have "fst (readLine_loop (line @ [x]) (n + 1) r1) = Inr ((line @ [x]) @ xs, (n + 1) + int (length xs) + 2) \<and>
        stream (snd (readLine_loop (line @ [x]) (n + 1) r1)) = rest"
    using Cons.IH[of r1 "line @ [x]" "n + 1"] r1(2) Cons.prems(2) x by simp
  then show ?case unfolding step by simp
qed

lemma readLine_loop_buf:
  assumes "buf r = xs @ CR # c # rest" "CR \<notin> set xs" "line = [] \<or> last line \<noteq> CR"
  shows "readLine_loop line n r = (Inr (line @ xs, n + int (length xs) + 2), r\<lparr>buf := rest\<rparr>)"
  using assms
proof (induction xs arbitrary: line n r)
  case Nil
  have r1: "ReadByte r = (Inr CR, r\<lparr>buf := c # rest\<rparr>)"
    using ReadByte_buf[of r CR "c # rest"] Nil.prems(1) by simp
  have r2: "ReadByte (r\<lparr>buf := c # rest\<rparr>) = (Inr c, r\<lparr>buf := rest\<rparr>)"
    using ReadByte_buf[of "r\<lparr>buf := c # rest\<rparr>" c rest] by simp
  have n1: "\<not> (2 \<le> length (line @ [CR]) \<and> (line @ [CR]) ! (length (line @ [CR]) - 2) = CR)"
    using Nil.prems(3) by (cases line rule: rev_cases) (auto simp: nth_append)
  have n2: "2 \<le> length ((line @ [CR]) @ [c]) \<and> ((line @ [CR]) @ [c]) ! (length ((line @ [CR]) @ [c]) - 2) = CR"
    by (simp add: nth_append)
  have "readLine_loop line n r = readLine_loop (line @ [CR]) (n + 1) (r\<lparr>buf := c # rest\<rparr>)"
    using r1 n1 by (subst readLine_loop.simps) (auto simp: Let_def)
  also have "\<dots> = (Inr (line, n + 2), r\<lparr>buf := rest\<rparr>)"
    using r2 n2 by (subst readLine_loop.simps) (auto simp: Let_def)
  finally show ?case by simp
next
  case (Cons x xs)
  have r1: "ReadByte r = (Inr x, r\<lparr>buf := xs @ CR # c # rest\<rparr>)"
    using ReadByte_buf[of r x "xs @ CR # c # rest"] Cons.prems(1) by simp
  have x: "x \<noteq> CR" using Cons.prems(2) by auto
  have n1: "\<not> (2 \<le> length (line @ [x]) \<and> (line @ [x]) ! (length (line @ [x]) - 2) = CR)"
    using Cons.prems(3) by (cases line rule: rev_cases) (auto simp: nth_append)
  have step: "readLine_loop line n r = readLine_loop (line @ [x]) (n + 1) (r\<lparr>buf := xs @ CR # c # rest\<rparr>)"
    using r1 n1 by (subst readLine_loop.simps) (auto simp: Let_def)
  have "readLine_loop (line @ [x]) (n + 1) (r\<lparr>buf := xs @ CR # c # rest\<rparr>) =
          (Inr ((line @ [x]) @ xs, (n + 1) + int (length xs) + 2), r\<lparr>buf := xs @ CR # c # rest\<rparr>\<lparr>buf := rest\<rparr>)"
    using Cons.IH[of "r\<lparr>buf := xs @ CR # c # rest\<rparr>" "line @ [x]" "n + 1"] Cons.prems(2) x by simp
  then show ?case unfolding step by simp
qed


lemma is_digit_char: "d < 10 \<Longrightarrow> is_digit (char_of (48 + d)) \<and> digit_val (char_of (48 + d)) = d"
  by (simp add: is_digit_def digit_val_def)

lemma digit_char_neq:
  assumes "d < 10"
  shows "char_of (48 + d :: nat) \<noteq> CR \<and> char_of (48 + d :: nat) \<noteq> CHR ''-'' \<and> char_of (48 + d :: nat) \<noteq> CHR ''+''"
proof -
  have v: "(of_char (char_of (48 + d :: nat)) :: nat) = 48 + d" using assms by simp
  have ne: "(of_char c :: nat) < 48 \<Longrightarrow> char_of (48 + d :: nat) \<noteq> c" for c
  proof
    assume lt: "(of_char c :: nat) < 48" and e: "char_of (48 + d :: nat) = c"
    have "(of_char c :: nat) = 48 + d" using v unfolding e .
    with lt show False by simp
  qed
  show ?thesis by (intro conjI ne) (simp_all add: CR_def)
qed

lemma formatDecimal_digits:
  "formatDecimal n \<noteq> [] \<and> (\<forall>c \<in> set (formatDecimal n). c \<noteq> CR \<and> c \<noteq> CHR ''-'' \<and> c \<noteq> CHR ''+'')"
proof (induction n rule: formatDecimal.induct)
  case (1 n)
  show ?case
  proof (cases "n < 10")
    case True
    then show ?thesis using digit_char_neq[of n] by (subst (1 2) formatDecimal.simps) simp
  next
    case False
    have "n mod 10 < 10" by simp
    then show ?thesis using False "1.IH" digit_char_neq[of "n mod 10"]
      by (subst (1 2) formatDecimal.simps) auto
  qed
qed

lemma ParseUint_loop_append:
  "ParseUint_loop (xs @ ys) n =
     (case ParseUint_loop xs n of Inl e \<Rightarrow> Inl e | Inr m \<Rightarrow> ParseUint_loop ys m)"
  by (induction xs arbitrary: n) (auto simp: Let_def)

lemma ParseUint_loop_formatDecimal:
  "n \<le> maxUint64 \<Longrightarrow> ParseUint_loop (formatDecimal n) 0 = Inr n"
proof (induction n rule: formatDecimal.induct)
  case (1 n)
  show ?case
  proof (cases "n < 10")
    case True
    then show ?thesis using is_digit_char[of n]
      by (subst formatDecimal.simps) (simp add: maxUint64_def)
  next
    case False
    have ih: "ParseUint_loop (formatDecimal (n div 10)) 0 = Inr (n div 10)"
      using "1.IH"[OF False] "1.prems" by simp
    have d: "is_digit (char_of (48 + n mod 10)) \<and> digit_val (char_of (48 + n mod 10)) = n mod 10"
      using is_digit_char[of "n mod 10"] by simp
    have c: "\<not> n div 10 \<ge> maxUint64 div 10 + 1" using "1.prems" by (simp add: maxUint64_def)
    have e: "n div 10 * 10 + n mod 10 = n" by simp
    show ?thesis
      using False ih d c e "1.prems"
      by (subst formatDecimal.simps) (simp add: ParseUint_loop_append Let_def)
  qed
qed

lemma ParseInt_Itoa:
  assumes "- (2 ^ 63) \<le> i" "i < 2 ^ 63"
  shows "ParseInt (Itoa i) = Inr i"
proof (cases "i < 0")
  case False
  let ?n = "nat i"
  have n: "?n \<le> maxUint64" "\<not> ?n \<ge> 2 ^ 63" using assms False by (simp_all add: maxUint64_def nat_less_iff)
  have f: "formatDecimal ?n \<noteq> []" "hd (formatDecimal ?n) \<noteq> CHR ''-''" "hd (formatDecimal ?n) \<noteq> CHR ''+''"
    using formatDecimal_digits[of ?n] by (auto simp: hd_in_set)
  show ?thesis
    using False n f ParseUint_loop_formatDecimal[OF n(1)]
    by (simp add: ParseInt_def Itoa_def ParseUint_def Let_def)
next
  case True
  let ?n = "nat (- i)"
  have n: "?n \<le> maxUint64" "\<not> ?n > 2 ^ 63" using assms True by (simp_all add: maxUint64_def nat_le_iff)
  have f: "formatDecimal ?n \<noteq> []" using formatDecimal_digits[of ?n] by simp
  show ?thesis
    using True n f ParseUint_loop_formatDecimal[OF n(1)]
    by (simp add: ParseInt_def Itoa_def ParseUint_def Let_def)
qed

lemma Itoa_no_CR: "CR \<notin> set (Itoa i)"
  using formatDecimal_digits[of "nat i"] formatDecimal_digits[of "nat (- i)"]
  by (auto simp: Itoa_def CR_def)


lemma ParseUint_loop_digits: "ParseUint_loop xs n = Inr m \<Longrightarrow> \<forall>c \<in> set xs. is_digit c"
  by (induction xs arbitrary: n) (auto simp: Let_def split: if_splits)

lemma ParseInt_no_CR:
  assumes "ParseInt ds = Inr len"
  shows "CR \<notin> set ds"
proof -
  have nd: "\<not> is_digit CR" by (simp add: is_digit_def CR_def)
  from assms have ne: "ds \<noteq> []" by (auto simp: ParseInt_def)
  then obtain d ds' where ds: "ds = d # ds'" by (cases ds) auto
  show ?thesis
  proof (cases "d = CHR ''+'' \<or> d = CHR ''-''")
    case True
    with assms ds obtain m where "ParseUint_loop ds' 0 = Inr m"
      by (auto simp: ParseInt_def ParseUint_def Let_def split: sum.splits if_splits error.splits)
    then have "\<forall>c \<in> set ds'. is_digit c" by (rule ParseUint_loop_digits)
    with nd True ds show ?thesis by (auto simp: CR_def)
  next
    case False
    with assms ds obtain m where "ParseUint_loop ds 0 = Inr m"
      by (auto simp: ParseInt_def ParseUint_def Let_def split: sum.splits if_splits error.splits)
    then have "\<forall>c \<in> set ds. is_digit c" by (rule ParseUint_loop_digits)
    with nd show ?thesis by auto
  qed
qed

lemma readInteger_stream:
  assumes "stream r = ds @ CR # c # rest" "ParseInt ds = Inr i"
  shows "fst (readInteger r) = Inr (i, int (length ds) + 2) \<and> stream (snd (readInteger r)) = rest"
proof -
  have "fst (readLine_loop [] 0 r) = Inr ([] @ ds, 0 + int (length ds) + 2) \<and>
        stream (snd (readLine_loop [] 0 r)) = rest"
    using assms(1) ParseInt_no_CR[OF assms(2)] by (intro readLine_loop_stream) auto
  then show ?thesis using assms(2)
    by (cases "readLine_loop [] 0 r") (simp add: readInteger_def readLine_def)
qed

lemma readInteger_buf:
  assumes "buf r = ds @ CR # c # rest" "ParseInt ds = Inr i"
  shows "readInteger r = (Inr (i, int (length ds) + 2), r\<lparr>buf := rest\<rparr>)"
proof -
  have "readLine_loop [] 0 r = (Inr ([] @ ds, 0 + int (length ds) + 2), r\<lparr>buf := rest\<rparr>)"
    using assms(1) ParseInt_no_CR[OF assms(2)] by (intro readLine_loop_buf) auto
  then show ?thesis using assms(2) by (simp add: readInteger_def readLine_def)
qed

lemmas read_eval = newrESP_def ReadByte_def bufSize_def ARRAY_def BULK_def CR_def LF_def
  Read.simps readArray.simps readArray_loop.simps readBulk_def readInteger_def readLine_def
  readLine_loop.simps ReaderRead_def Let_def ParseInt_def ParseUint_def is_digit_def digit_val_def
  maxUint64_def maxAlloc_def stream_def

text \<open>
  C8. \<open>readLine\<close> ends the line at the first carriage return followed by any byte, so
  a carriage return that is not followed by a line feed ends it too. On the five bytes
  a, CR, b, CR, LF it returns a after three bytes, and leaves CR LF unread; the line up to
  the first CR LF pair is a, CR, b.
\<close>

theorem C8_readLine_lone_CR:
  "readLine (newrESP [CHR ''a'', CR, CHR ''b'', CR, LF]) =
     (Inr (''a'', 3), \<lparr>buf = [CR, LF], src = []\<rparr>)"
  by (simp add: read_eval)

text \<open>
  C6 (as stated). On the bytes of \<open>+OK\<close> CR LF, whose first byte is neither the array
  nor the bulk marker, \<open>Read\<close> does not fail: it returns the zero \<open>Value\<close>.
\<close>

theorem C6_unknown_marker_counterexample:
  "fst (Read (newrESP (''+OK'' @ [CR, LF]))) = Inr (Value [] [] 0 [] []) \<and>
   \<not> isl (fst (Read (newrESP (''+OK'' @ [CR, LF]))))"
  by (simp add: read_eval)

text \<open>
  C6 (amended). For every input whose first byte is neither the array marker nor the
  bulk marker, \<open>Read\<close> consumes that one byte and returns the zero \<open>Value\<close> (no variant
  set) without an error.
\<close>

theorem C6_unknown_marker:
  assumes "s \<noteq> []" "hd s \<noteq> ARRAY" "hd s \<noteq> BULK"
  shows "fst (Read (newrESP s)) = Inr (Value [] [] 0 [] []) \<and>
         stream (snd (Read (newrESP s))) = tl s"
proof -
  obtain c cs where s: "s = c # cs" using assms(1) by (cases s) auto
  have "stream (newrESP s) = c # cs" by (simp add: stream_def newrESP_def s)
  then obtain r1 where r1: "ReadByte (newrESP s) = (Inr c, r1)" "stream r1 = cs"
    using ReadByte_stream[of "newrESP s" c cs] by (cases "ReadByte (newrESP s)") auto
  show ?thesis using r1 assms(2,3) s by (subst (1 2) Read.simps) simp
qed


theorem C6_unknown_marker_witness:
  "''+OK'' @ [CR, LF] \<noteq> [] \<and> hd (''+OK'' @ [CR, LF]) \<noteq> ARRAY \<and> hd (''+OK'' @ [CR, LF]) \<noteq> BULK \<and>
   fst (Read (newrESP (''+OK'' @ [CR, LF]))) = Inr (Value [] [] 0 [] []) \<and>
   stream (snd (Read (newrESP (''+OK'' @ [CR, LF])))) = ''OK'' @ [CR, LF]"
  using C6_unknown_marker [of "''+OK'' @ [CR, LF]"]
  by (simp add: ARRAY_def BULK_def)

text \<open>
  C7 (as stated). An array of length -1 decodes to a value of the variant array with
  no elements, the same value as an array of length 0, not to the null variant; and a
  bulk string of length -1 makes \<open>readBulk\<close> panic in \<open>make\<close>.
\<close>

theorem C7_negative_length_counterexample:
  "fst (Read (newrESP (''*-1'' @ [CR, LF]))) = Inr (Value ''array'' [] 0 [] []) \<and>
   typ' (Value ''array'' [] 0 [] []) \<noteq> ''null'' \<and>
   fst (Read (newrESP (''*0'' @ [CR, LF]))) = Inr (Value ''array'' [] 0 [] []) \<and>
   fst (Read (newrESP (''$-1'' @ [CR, LF]))) = Inl PanicMakeslice"
  by (simp add: read_eval)

text \<open>
  C7 (amended). For every input that starts with the array marker and a line holding a
  negative decimal length, \<open>Read\<close> returns normally, right after that line and without
  reading further, a value of the variant array with no elements.
\<close>

theorem C7_negative_array_length:
  assumes "ParseInt ds = Inr len" "len < 0"
  shows "fst (Read (newrESP ([ARRAY] @ ds @ [CR, LF] @ rest))) = Inr (Value ''array'' [] 0 [] []) \<and>
         stream (snd (Read (newrESP ([ARRAY] @ ds @ [CR, LF] @ rest)))) = rest"
proof -
  let ?r = "newrESP ([ARRAY] @ ds @ [CR, LF] @ rest)"
  have "stream ?r = ARRAY # (ds @ CR # LF # rest)" by (simp add: stream_def newrESP_def)
  then obtain r1 where r1: "ReadByte ?r = (Inr ARRAY, r1)" "stream r1 = ds @ CR # LF # rest"
    using ReadByte_stream[of ?r ARRAY "ds @ CR # LF # rest"] by (cases "ReadByte ?r") auto
  obtain n r2 where r2: "readInteger r1 = (Inr (len, n), r2)" "stream r2 = rest"
    using readInteger_stream[OF r1(2) assms(1)] by (cases "readInteger r1") auto
  have "Read ?r = readArray r1" using r1(1) by (subst Read.simps) simp
  also have "\<dots> = readArray_loop 0 len [] r2" using r2(1) by (subst readArray.simps) simp
  also have "\<dots> = (Inr (Value ''array'' [] 0 [] []), r2)"
    using assms(2) by (subst readArray_loop.simps) simp
  finally show ?thesis using r2(2) by simp
qed


theorem C7_negative_array_length_witness:
  "ParseInt ''-1'' = Inr (- 1) \<and> (- 1 :: int) < 0 \<and>
   fst (Read (newrESP ([ARRAY] @ ''-1'' @ [CR, LF] @ ''$1''))) = Inr (Value ''array'' [] 0 [] []) \<and>
   stream (snd (Read (newrESP ([ARRAY] @ ''-1'' @ [CR, LF] @ ''$1'')))) = ''$1''"
  using C7_negative_array_length [of "''-1''" "- 1" "''$1''"]
  by (simp add: ParseInt_def ParseUint_def is_digit_def digit_val_def maxUint64_def)

subsection \<open>Handlers\<close>

lemma Handlers_cases:
  "Handlers iter c = Some h \<Longrightarrow>
     (c = ''PING'' \<and> h = ping) \<or> (c = ''SET'' \<and> h = set_h) \<or> (c = ''GET'' \<and> h = get) \<or>
     (c = ''HSET'' \<and> h = hset) \<or> (c = ''HGET'' \<and> h = hget) \<or> (c = ''HGETALL'' \<and> h = hgetall iter)"
  by (simp add: Handlers_def split: if_splits)

lemma SETs_ping: "SETs (snd (ping args st)) = SETs st"
  by (simp add: ping_def)

lemma SETs_get: "SETs (snd (get args st)) = SETs st"
  by (simp add: get_def Let_def split: option.splits)

lemma SETs_hset: "SETs (snd (hset args st)) = SETs st"
  by (simp add: hset_def Let_def)

lemma SETs_hget: "SETs (snd (hget args st)) = SETs st"
  by (simp add: hget_def Let_def split: option.splits)

lemma SETs_hgetall: "SETs (snd (hgetall iter args st)) = SETs st"
  by (simp add: hgetall_def Let_def split: option.splits)

lemma SETs_set_h:
  "SETs (snd (set_h args st)) k =
     (if length args = 2 \<and> bulk (args ! 0) = k then Some (bulk (args ! 1)) else SETs st k)"
  by (simp add: set_h_def Let_def)

lemma serve_SETs_None:
  assumes "\<not> writes_key ToUpper k req" "SETs st k = None"
  shows "SETs (fst (snd (serve ToUpper iter req (st, aof)))) k = None"
proof (cases "typ' req = ''array'' \<and> array req \<noteq> []")
  case False
  with assms show ?thesis by (auto simp: serve_def)
next
  case True
  show ?thesis
  proof (cases "Handlers iter (ToUpper (bulk (array req ! 0)))")
    case None
    with True assms show ?thesis by (simp add: serve_def)
  next
    case (Some h)
    have eq: "fst (snd (serve ToUpper iter req (st, aof))) = snd (h (tl (array req)) st)"
      using True Some by (simp add: serve_def Let_def split: prod.splits)
    have nth: "tl (array req) ! 0 = array req ! 1" using True by (cases "array req") auto
    from Handlers_cases[OF Some] assms True show ?thesis
      unfolding eq
      by (auto simp: SETs_ping SETs_get SETs_hset SETs_hget SETs_hgetall SETs_set_h writes_key_def nth)
  qed
qed

lemma serve_all_SETs_None:
  "\<forall>req \<in> set reqs. \<not> writes_key ToUpper k req \<Longrightarrow> SETs st k = None \<Longrightarrow>
   SETs (fst (serve_all ToUpper iter reqs (st, aof))) k = None"
proof (induction reqs arbitrary: st aof)
  case Nil
  then show ?case by simp
next
  case (Cons req reqs)
  obtain rsp st1 aof1 where s: "serve ToUpper iter req (st, aof) = (rsp, st1, aof1)"
    by (cases "serve ToUpper iter req (st, aof)") auto
  have "SETs st1 k = None" using serve_SETs_None[of ToUpper k req st iter aof] Cons.prems s by simp
  then show ?case using Cons.IH[of st1 aof1] Cons.prems s by simp
qed

text \<open>
  C3. \<open>SET k v\<close> followed by \<open>GET k\<close> returns the bulk value v, for all strings k and v
  (the non-empty ones among them); and \<open>GET k\<close> returns the null value, which is not an
  error value, for a key never written: after any sequence of requests served from the
  empty store, none of which writes k.
\<close>

theorem C3_set_then_get:
  "get [Value ''bulk'' [] 0 k []] (snd (set_h [Value ''bulk'' [] 0 k [], Value ''bulk'' [] 0 v []] st))
     = (Value ''bulk'' [] 0 v [], snd (set_h [Value ''bulk'' [] 0 k [], Value ''bulk'' [] 0 v []] st))
   \<and> ((\<forall>req \<in> set reqs. \<not> writes_key ToUpper k req) \<longrightarrow>
        fst (get [Value ''bulk'' [] 0 k []] (fst (serve_all ToUpper iter reqs (Store0, aof))))
          = Value ''null'' [] 0 [] [])"
proof (intro conjI impI)
  show "get [Value ''bulk'' [] 0 k []] (snd (set_h [Value ''bulk'' [] 0 k [], Value ''bulk'' [] 0 v []] st))
     = (Value ''bulk'' [] 0 v [], snd (set_h [Value ''bulk'' [] 0 k [], Value ''bulk'' [] 0 v []] st))"
    by (simp add: get_def set_h_def Let_def)
next
  assume "\<forall>req \<in> set reqs. \<not> writes_key ToUpper k req"
  then have "SETs (fst (serve_all ToUpper iter reqs (Store0, aof))) k = None"
    by (rule serve_all_SETs_None) (simp add: Store0_def)
  then show "fst (get [Value ''bulk'' [] 0 k []] (fst (serve_all ToUpper iter reqs (Store0, aof))))
          = Value ''null'' [] 0 [] []"
    by (simp add: get_def Let_def)
qed

theorem C3_set_then_get_witness:
  "\<not> writes_key ToUpper_ascii ''k''
       (Value ''array'' [] 0 [] [Value ''bulk'' [] 0 ''set'' [], Value ''bulk'' [] 0 ''j'' [], Value ''bulk'' [] 0 ''x'' []])
   \<and> get [Value ''bulk'' [] 0 ''k'' []]
        (snd (set_h [Value ''bulk'' [] 0 ''k'' [], Value ''bulk'' [] 0 ''v'' []] Store0))
     = (Value ''bulk'' [] 0 ''v'' [],
        snd (set_h [Value ''bulk'' [] 0 ''k'' [], Value ''bulk'' [] 0 ''v'' []] Store0))
   \<and> fst (get [Value ''bulk'' [] 0 ''k'' []]
        (fst (serve_all ToUpper_ascii (\<lambda>m. [])
           [Value ''array'' [] 0 [] [Value ''bulk'' [] 0 ''set'' [], Value ''bulk'' [] 0 ''j'' [], Value ''bulk'' [] 0 ''x'' []]]
           (Store0, \<lparr>file = [], pos = 0\<rparr>))))
     = Value ''null'' [] 0 [] []"
  using C3_set_then_get [of "''k''" "''v''" Store0
      "[Value ''array'' [] 0 [] [Value ''bulk'' [] 0 ''set'' [], Value ''bulk'' [] 0 ''j'' [], Value ''bulk'' [] 0 ''x'' []]]"
      ToUpper_ascii "\<lambda>m. []" "\<lparr>file = [], pos = 0\<rparr>"]
  by (simp add: writes_key_def)

text \<open>
  C5. Each of the handlers \<open>SET\<close>, \<open>GET\<close>, \<open>HSET\<close>, \<open>HGET\<close> and \<open>HGETALL\<close>, called with
  an argument list whose length is not the expected one, returns an error value and
  leaves the store (both maps) as it was.
\<close>

theorem C5_wrong_arity:
  "(length args \<noteq> 2 \<longrightarrow> typ' (fst (set_h args st)) = ''error'' \<and> snd (set_h args st) = st) \<and>
   (length args \<noteq> 1 \<longrightarrow> typ' (fst (get args st)) = ''error'' \<and> snd (get args st) = st) \<and>
   (length args \<noteq> 3 \<longrightarrow> typ' (fst (hset args st)) = ''error'' \<and> snd (hset args st) = st) \<and>
   (length args \<noteq> 2 \<longrightarrow> typ' (fst (hget args st)) = ''error'' \<and> snd (hget args st) = st) \<and>
   (length args \<noteq> 1 \<longrightarrow> typ' (fst (hgetall iter args st)) = ''error'' \<and> snd (hgetall iter args st) = st)"
  by (simp add: set_h_def get_def hset_def hget_def hgetall_def)

theorem C5_wrong_arity_witness:
  "length ([] :: Value list) \<noteq> 2 \<and> length ([] :: Value list) \<noteq> 1 \<and> length ([] :: Value list) \<noteq> 3 \<and>
   typ' (fst (set_h [] Store0)) = ''error'' \<and> snd (set_h [] Store0) = Store0 \<and>
   typ' (fst (get [] Store0)) = ''error'' \<and> snd (get [] Store0) = Store0 \<and>
   typ' (fst (hset [] Store0)) = ''error'' \<and> snd (hset [] Store0) = Store0 \<and>
   typ' (fst (hget [] Store0)) = ''error'' \<and> snd (hget [] Store0) = Store0 \<and>
   typ' (fst (hgetall (\<lambda>m. []) [] Store0)) = ''error'' \<and> snd (hgetall (\<lambda>m. []) [] Store0) = Store0"
  using C5_wrong_arity [of "[]" Store0 "\<lambda>m. []"]
  by simp

subsection \<open>Decoding an encoded value\<close>

lemma ReaderRead_buf:
  "n \<le> length (buf r) \<Longrightarrow> ReaderRead n r = (take n (buf r), r\<lparr>buf := drop n (buf r)\<rparr>)"
  by (auto simp: ReaderRead_def)

lemma readLine_buf_CRLF:
  "buf r = CR # c # rest \<Longrightarrow> readLine r = (Inr ([], 2), r\<lparr>buf := rest\<rparr>)"
  using readLine_loop_buf[of r "[]" c rest "[]" 0] by (simp add: readLine_def)

lemma Itoa_length_int64:
  "int n \<le> maxAlloc \<Longrightarrow> ParseInt (Itoa (int n)) = Inr (int n)"
  by (rule ParseInt_Itoa) (simp_all add: maxAlloc_def)

lemma readBulk_buf:
  assumes "buf r = Itoa (int (length b)) @ [CR, LF] @ b @ [CR, LF] @ rest" "int (length b) \<le> maxAlloc"
  shows "readBulk r = (Inr (Value ''bulk'' [] 0 b []), r\<lparr>buf := rest\<rparr>)"
proof -
  let ?r1 = "r\<lparr>buf := b @ [CR, LF] @ rest\<rparr>"
  have i: "readInteger r = (Inr (int (length b), int (length (Itoa (int (length b)))) + 2), ?r1)"
    using readInteger_buf[of r "Itoa (int (length b))" LF "b @ [CR, LF] @ rest" "int (length b)"]
      assms Itoa_length_int64 by simp
  have rr: "ReaderRead (length b) ?r1 = (b, r\<lparr>buf := [CR, LF] @ rest\<rparr>)"
    using ReaderRead_buf[of "length b" ?r1] by simp
  have l: "readLine (r\<lparr>buf := [CR, LF] @ rest\<rparr>) = (Inr ([], 2), r\<lparr>buf := rest\<rparr>)"
    using readLine_buf_CRLF[of "r\<lparr>buf := [CR, LF] @ rest\<rparr>" LF rest] by simp
  show ?thesis using i rr l assms(2) by (simp add: readBulk_def Let_def)
qed

lemma wire_Marshal_nonempty: "wire v \<Longrightarrow> Marshal v \<noteq> []"
  by (cases v) auto

lemma length_concat_ge:
  "\<forall>x \<in> set xs. f x \<noteq> [] \<Longrightarrow> length xs \<le> length (concat (map f xs))"
proof (induction xs)
  case Nil
  show ?case by simp
next
  case (Cons x xs)
  then have "length (f x) \<ge> 1" by (cases "f x") auto
  with Cons show ?case by simp
qed

lemma length_concat_elem:
  "x \<in> set xs \<Longrightarrow> length (f x) \<le> length (concat (map f xs))"
  by (induction xs) auto

lemma readArray_loop_buf:
  assumes "\<forall>x \<in> set xs. \<forall>r rest. buf r = Marshal x @ rest \<longrightarrow> Read r = (Inr x, r\<lparr>buf := rest\<rparr>)"
    "buf r = concat (map Marshal xs) @ rest" "len = i + int (length xs)"
  shows "readArray_loop i len acc r = (Inr (Value ''array'' [] 0 [] (acc @ xs)), r\<lparr>buf := rest\<rparr>)"
  using assms
proof (induction xs arbitrary: i acc r)
  case Nil
  then have "r\<lparr>buf := rest\<rparr> = r" by simp
  with Nil show ?case by (subst readArray_loop.simps) simp
next
  case (Cons x xs)
  have rd: "Read r = (Inr x, r\<lparr>buf := concat (map Marshal xs) @ rest\<rparr>)"
    using Cons.prems(1,2) by simp
  have "readArray_loop (i + 1) len (acc @ [x]) (r\<lparr>buf := concat (map Marshal xs) @ rest\<rparr>) =
        (Inr (Value ''array'' [] 0 [] ((acc @ [x]) @ xs)), r\<lparr>buf := concat (map Marshal xs) @ rest\<rparr>\<lparr>buf := rest\<rparr>)"
    using Cons.IH[of "r\<lparr>buf := concat (map Marshal xs) @ rest\<rparr>" "i + 1" "acc @ [x]"] Cons.prems(1,3)
    by simp
  moreover have "i < len" using Cons.prems(3) by simp
  ultimately show ?case using rd by (subst readArray_loop.simps) simp
qed

lemma Read_buf:
  "wire v \<Longrightarrow> int (length (Marshal v)) \<le> maxAlloc \<Longrightarrow> buf r = Marshal v @ rest \<Longrightarrow>
   Read r = (Inr v, r\<lparr>buf := rest\<rparr>)"
proof (induction v arbitrary: r rest)
  case (Value t s n b a)
  from Value.prems(1) consider
      (bulk) "t = ''bulk''" "s = []" "n = 0" "a = []"
    | (array) "t = ''array''" "s = []" "n = 0" "b = []" "\<forall>x \<in> set a. wire x"
    by auto
  then show ?case
  proof cases
    case bulk
    have buf: "buf r = BULK # (Itoa (int (length b)) @ [CR, LF] @ b @ [CR, LF] @ rest)"
      using Value.prems(3) bulk by simp
    have len: "int (length b) \<le> maxAlloc" using Value.prems(2) bulk by simp
    have rb: "ReadByte r = (Inr BULK, r\<lparr>buf := Itoa (int (length b)) @ [CR, LF] @ b @ [CR, LF] @ rest\<rparr>)"
      using ReadByte_buf[OF buf] .
    have "readBulk (r\<lparr>buf := Itoa (int (length b)) @ [CR, LF] @ b @ [CR, LF] @ rest\<rparr>) =
          (Inr (Value ''bulk'' [] 0 b []), r\<lparr>buf := rest\<rparr>)"
      using readBulk_buf[of "r\<lparr>buf := Itoa (int (length b)) @ [CR, LF] @ b @ [CR, LF] @ rest\<rparr>" b rest] len
      by simp
    then show ?thesis using rb bulk
      by (subst Read.simps) (simp add: ARRAY_def BULK_def)
  next
    case array
    let ?body = "concat (map Marshal a)"
    have buf: "buf r = ARRAY # (Itoa (int (length a)) @ CR # LF # (?body @ rest))"
      using Value.prems(3) array by simp
    have tot: "int (length ?body) \<le> maxAlloc" using Value.prems(2) array by simp
    have "length a \<le> length ?body"
      using array(5) wire_Marshal_nonempty by (intro length_concat_ge) auto
    with tot have len: "int (length a) \<le> maxAlloc" by simp
    have el: "\<forall>x \<in> set a. \<forall>r rest. buf r = Marshal x @ rest \<longrightarrow> Read r = (Inr x, r\<lparr>buf := rest\<rparr>)"
    proof (intro ballI allI impI)
      fix x and r' :: Reader and rest' assume x: "x \<in> set a" and b: "buf r' = Marshal x @ rest'"
      have "length (Marshal x) \<le> length ?body" using x by (rule length_concat_elem)
      with tot have "int (length (Marshal x)) \<le> maxAlloc" by simp
      with Value.IH[OF x] array(5) x b show "Read r' = (Inr x, r'\<lparr>buf := rest'\<rparr>)" by simp
    qed
    let ?r1 = "r\<lparr>buf := Itoa (int (length a)) @ CR # LF # (?body @ rest)\<rparr>"
    have rb: "ReadByte r = (Inr ARRAY, ?r1)" using ReadByte_buf[OF buf] .
    have ri: "readInteger ?r1 = (Inr (int (length a), int (length (Itoa (int (length a)))) + 2), r\<lparr>buf := ?body @ rest\<rparr>)"
      using readInteger_buf[of ?r1 "Itoa (int (length a))" LF "?body @ rest" "int (length a)"]
        Itoa_length_int64[OF len] by simp
    have lp: "readArray_loop 0 (int (length a)) [] (r\<lparr>buf := ?body @ rest\<rparr>) =
              (Inr (Value ''array'' [] 0 [] ([] @ a)), r\<lparr>buf := ?body @ rest\<rparr>\<lparr>buf := rest\<rparr>)"
      using el by (intro readArray_loop_buf) simp_all
    have "readArray ?r1 = (Inr (Value ''array'' [] 0 [] a), r\<lparr>buf := rest\<rparr>)"
      using ri lp by (subst readArray.simps) simp
    then show ?thesis using rb array
      by (subst Read.simps) simp
  qed
qed


lemma ReadByte_fill:
  "ReadByte \<lparr>buf = [], src = s\<rparr> = ReadByte \<lparr>buf = take bufSize s, src = drop bufSize s\<rparr>"
  by (cases "take bufSize s") (auto simp: ReadByte_def)

lemma Read_fill: "Read (newrESP s) = Read \<lparr>buf = take bufSize s, src = drop bufSize s\<rparr>"
  by (subst (1 2) Read.simps) (simp add: newrESP_def ReadByte_fill)

lemma bufSize_le_maxAlloc: "n \<le> bufSize \<Longrightarrow> int n \<le> maxAlloc"
  by (simp add: bufSize_def maxAlloc_def)

lemma digit_chars:
  "char_of (48 :: nat) = CHR ''0''" "char_of (49 :: nat) = CHR ''1''" "char_of (50 :: nat) = CHR ''2''"
  "char_of (51 :: nat) = CHR ''3''" "char_of (52 :: nat) = CHR ''4''" "char_of (53 :: nat) = CHR ''5''"
  "char_of (54 :: nat) = CHR ''6''" "char_of (55 :: nat) = CHR ''7''" "char_of (56 :: nat) = CHR ''8''"
  "char_of (57 :: nat) = CHR ''9''"
  by (simp_all add: char_of_def bit_iff_odd_drop_bit)

lemmas marshal_eval = Itoa_def formatDecimal.simps digit_chars ARRAY_def BULK_def STRING_def ERROR_def
  CR_def LF_def


text \<open>
  C1 (as stated). A simple string and an error are encoded with the markers \<open>+\<close> and
  \<open>-\<close>, which \<open>Read\<close> answers with the zero \<open>Value\<close>; \<open>Marshal\<close> has no case for an
  integer and encodes it as no bytes, on which \<open>Read\<close> fails with \<open>EOF\<close>.
\<close>

theorem C1_roundtrip_counterexample:
  "fst (Read (newrESP (Marshal (Value ''string'' ''OK'' 0 [] [])))) = Inr (Value [] [] 0 [] []) \<and>
   Value [] [] 0 [] [] \<noteq> Value ''string'' ''OK'' 0 [] [] \<and>
   fst (Read (newrESP (Marshal (Value ''error'' ''ERR'' 0 [] [])))) = Inr (Value [] [] 0 [] []) \<and>
   Value [] [] 0 [] [] \<noteq> Value ''error'' ''ERR'' 0 [] [] \<and>
   Marshal (Value ''integer'' [] 5 [] []) = [] \<and>
   fst (Read (newrESP (Marshal (Value ''integer'' [] 5 [] [])))) = Inl EOF"
  by (simp add: read_eval STRING_def ERROR_def)

text \<open>
  C1 (amended). For every value made of bulk strings and arrays only, whose encoding
  is no longer than the reader's buffer, decoding the encoding (followed by any further
  bytes) returns the value itself and consumes exactly the encoding.
\<close>

theorem C1_roundtrip_bulk_array:
  assumes "wire v" "length (Marshal v) \<le> bufSize"
  shows "fst (Read (newrESP (Marshal v @ rest))) = Inr v \<and>
         stream (snd (Read (newrESP (Marshal v @ rest)))) = rest"
proof -
  let ?k = "bufSize - length (Marshal v)"
  let ?rf = "\<lparr>buf = take bufSize (Marshal v @ rest), src = drop bufSize (Marshal v @ rest)\<rparr>"
  have b: "buf ?rf = Marshal v @ take ?k rest" using assms(2) by simp
  have "Read ?rf = (Inr v, ?rf\<lparr>buf := take ?k rest\<rparr>)"
    using Read_buf[OF assms(1) bufSize_le_maxAlloc[OF assms(2)] b] .
  then have "Read (newrESP (Marshal v @ rest)) = (Inr v, ?rf\<lparr>buf := take ?k rest\<rparr>)"
    by (simp only: Read_fill)
  then show ?thesis using assms(2) by (simp add: stream_def)
qed

theorem C1_roundtrip_bulk_array_witness:
  "wire (Value ''array'' [] 0 [] [Value ''bulk'' [] 0 ''SET'' [], Value ''bulk'' [] 0 ''k'' [], Value ''bulk'' [] 0 [] []]) \<and>
   length (Marshal (Value ''array'' [] 0 [] [Value ''bulk'' [] 0 ''SET'' [], Value ''bulk'' [] 0 ''k'' [], Value ''bulk'' [] 0 [] []])) \<le> bufSize \<and>
   Marshal (Value ''array'' [] 0 [] [Value ''bulk'' [] 0 ''SET'' [], Value ''bulk'' [] 0 ''k'' [], Value ''bulk'' [] 0 [] []])
     = ''*3'' @ [CR, LF] @ ''$3'' @ [CR, LF] @ ''SET'' @ [CR, LF] @ ''$1'' @ [CR, LF] @ ''k'' @ [CR, LF] @ ''$0'' @ [CR, LF] @ [CR, LF] \<and>
   fst (Read (newrESP (Marshal (Value ''array'' [] 0 [] [Value ''bulk'' [] 0 ''SET'' [], Value ''bulk'' [] 0 ''k'' [], Value ''bulk'' [] 0 [] []]) @ ''*1'')))
     = Inr (Value ''array'' [] 0 [] [Value ''bulk'' [] 0 ''SET'' [], Value ''bulk'' [] 0 ''k'' [], Value ''bulk'' [] 0 [] []]) \<and>
   stream (snd (Read (newrESP (Marshal (Value ''array'' [] 0 [] [Value ''bulk'' [] 0 ''SET'' [], Value ''bulk'' [] 0 ''k'' [], Value ''bulk'' [] 0 [] []]) @ ''*1''))))
     = ''*1''"
proof -
  have m: "Marshal (Value ''array'' [] 0 [] [Value ''bulk'' [] 0 ''SET'' [], Value ''bulk'' [] 0 ''k'' [], Value ''bulk'' [] 0 [] []])
     = ''*3'' @ [CR, LF] @ ''$3'' @ [CR, LF] @ ''SET'' @ [CR, LF] @ ''$1'' @ [CR, LF] @ ''k'' @ [CR, LF] @ ''$0'' @ [CR, LF] @ [CR, LF]"
    by (simp add: marshal_eval)
  have w: "wire (Value ''array'' [] 0 [] [Value ''bulk'' [] 0 ''SET'' [], Value ''bulk'' [] 0 ''k'' [], Value ''bulk'' [] 0 [] []])"
    by simp
  have l: "length (Marshal (Value ''array'' [] 0 [] [Value ''bulk'' [] 0 ''SET'' [], Value ''bulk'' [] 0 ''k'' [], Value ''bulk'' [] 0 [] []])) \<le> bufSize"
    unfolding m by (simp add: bufSize_def)
  note t = C1_roundtrip_bulk_array [OF w l, of "''*1''"]
  from w l m t[THEN conjunct1] t[THEN conjunct2] show ?thesis
    by (intro conjI)
qed


subsection \<open>Hashes\<close>

lemma hgetall_loop_pairs: "hgetall_loop kvs acc = acc @ field_value_pairs kvs"
  by (induction kvs arbitrary: acc) (auto simp: field_value_pairs_def)

lemma length_field_value_pairs: "length (field_value_pairs kvs) = 2 * length kvs"
  by (induction kvs) (auto simp: field_value_pairs_def)

lemma HSETs_hset_calls:
  "HSETs (hset_calls h fvs st) h =
     (if fvs = [] then HSETs st h
      else Some ((case HSETs st h of None \<Rightarrow> Map.empty | Some m \<Rightarrow> m) ++ map_of (rev fvs)))"
proof (induction fvs arbitrary: st)
  case Nil
  show ?case by simp
next
  case (Cons fv fvs)
  obtain f v where fv: "fv = (f, v)" by (cases fv)
  define m0 where "m0 = (case HSETs st h of None \<Rightarrow> Map.empty | Some m \<Rightarrow> m)"
  define st1 where
    "st1 = snd (hset [Value ''bulk'' [] 0 h [], Value ''bulk'' [] 0 f [], Value ''bulk'' [] 0 v []] st)"
  have st1: "HSETs st1 h = Some (m0(f \<mapsto> v))"
    by (simp add: st1_def m0_def hset_def Let_def)
  have step: "hset_calls h (fv # fvs) st = hset_calls h fvs st1"
    by (simp add: fv st1_def)
  have e: "m0(f \<mapsto> v) ++ map_of (rev fvs) = m0 ++ map_of (rev (fv # fvs))"
    by (simp add: fv map_add_upd_left)
  have e0: "m0(f \<mapsto> v) = m0 ++ map_of (rev [fv])" by (simp add: fv)
  have goal: "HSETs (hset_calls h fvs st1) h = Some (m0 ++ map_of (rev (fv # fvs)))"
  proof (cases "fvs = []")
    case True
    then show ?thesis using st1 e0 by simp
  next
    case False
    then have "HSETs (hset_calls h fvs st1) h = Some (m0(f \<mapsto> v) ++ map_of (rev fvs))"
      using Cons.IH[of st1] by (simp only: st1 if_False option.case)
    then show ?thesis by (simp only: e)
  qed
  show ?case unfolding step using goal by (simp only: m0_def list.distinct if_False)
qed

lemma range_order_mset:
  assumes "range_order (map_of (rev fvs)) kvs" "distinct (map fst fvs)"
  shows "mset kvs = mset fvs"
proof -
  have d1: "distinct (map fst kvs)" and m: "map_of kvs = map_of (rev fvs)"
    using assms(1) by (simp_all add: range_order_def)
  have d2: "distinct (map fst (rev fvs))" using assms(2) by (simp add: rev_map[symmetric])
  have "set kvs = set (rev fvs)" using map_of_inject_set[OF d1 d2] m by simp
  then have s: "set kvs = set fvs" by simp
  have "distinct kvs" "distinct fvs" using d1 assms(2) by (auto simp: distinct_map)
  then show ?thesis using s by (simp add: set_eq_iff_mset_eq_distinct)
qed

text \<open>
  C9. \<open>HSET h f v\<close> followed by \<open>HGET h f\<close> returns v. After the calls \<open>HSET h f v\<close> for
  N pairs (f, v) with pairwise distinct fields, N at least 1, on a store that has no
  hash h, \<open>HGETALL h\<close> returns an array of 2N bulk strings: the pairs field, value of a
  rearrangement kvs of the N pairs, each pair once, in whatever order \<open>range\<close> visits
  the hash.
\<close>

theorem C9_hset_hget_hgetall:
  "fst (hget [Value ''bulk'' [] 0 h [], Value ''bulk'' [] 0 f []]
          (snd (hset [Value ''bulk'' [] 0 h [], Value ''bulk'' [] 0 f [], Value ''bulk'' [] 0 v []] st)))
     = Value ''bulk'' [] 0 v []
   \<and> (fvs \<noteq> [] \<and> distinct (map fst fvs) \<and> HSETs st h = None \<and>
        HSETs (hset_calls h fvs st) h = Some m \<and> range_order m (iter m) \<longrightarrow>
        (\<exists>kvs. mset kvs = mset fvs \<and>
           fst (hgetall iter [Value ''bulk'' [] 0 h []] (hset_calls h fvs st))
             = Value ''array'' [] 0 [] (field_value_pairs kvs) \<and>
           length (field_value_pairs kvs) = 2 * length fvs))"
proof (intro conjI impI)
  show "fst (hget [Value ''bulk'' [] 0 h [], Value ''bulk'' [] 0 f []]
          (snd (hset [Value ''bulk'' [] 0 h [], Value ''bulk'' [] 0 f [], Value ''bulk'' [] 0 v []] st)))
     = Value ''bulk'' [] 0 v []"
    by (simp add: hget_def hset_def Let_def)
next
  assume a: "fvs \<noteq> [] \<and> distinct (map fst fvs) \<and> HSETs st h = None \<and>
        HSETs (hset_calls h fvs st) h = Some m \<and> range_order m (iter m)"
  have "HSETs (hset_calls h fvs st) h = Some (map_of (rev fvs))"
    using a by (simp add: HSETs_hset_calls)
  with a have m: "m = map_of (rev fvs)" by simp
  have ms: "mset (iter m) = mset fvs"
    using range_order_mset[of fvs "iter m"] a m by simp
  have len: "length (field_value_pairs (iter m)) = 2 * length fvs"
    using mset_eq_length[OF ms] by (simp add: length_field_value_pairs)
  have "fst (hgetall iter [Value ''bulk'' [] 0 h []] (hset_calls h fvs st))
      = Value ''array'' [] 0 [] (field_value_pairs (iter m))"
    using a by (simp add: hgetall_def Let_def hgetall_loop_pairs)
  with ms len show "\<exists>kvs.  mset kvs = mset fvs \<and>
           fst (hgetall iter [Value ''bulk'' [] 0 h []] (hset_calls h fvs st))
             = Value ''array'' [] 0 [] (field_value_pairs kvs) \<and>
           length (field_value_pairs kvs) = 2 * length fvs"
    by (intro exI[of _ "iter m"]) simp
qed


theorem C9_hset_hget_hgetall_witness:
  "([(''f1'', ''v1''), (''f2'', ''v2'')] \<noteq> [] \<and> distinct (map fst [(''f1'', ''v1''), (''f2'', ''v2'')]) \<and>
    HSETs Store0 ''h'' = None \<and>
    HSETs (hset_calls ''h'' [(''f1'', ''v1''), (''f2'', ''v2'')] Store0) ''h'' = Some [''f1'' \<mapsto> ''v1'', ''f2'' \<mapsto> ''v2''] \<and>
    range_order [''f1'' \<mapsto> ''v1'', ''f2'' \<mapsto> ''v2'']
      ((\<lambda>m. [(''f2'', ''v2''), (''f1'', ''v1'')]) [''f1'' \<mapsto> ''v1'', ''f2'' \<mapsto> ''v2''])) \<and>
   fst (hget [Value ''bulk'' [] 0 ''h'' [], Value ''bulk'' [] 0 ''f1'' []]
          (snd (hset [Value ''bulk'' [] 0 ''h'' [], Value ''bulk'' [] 0 ''f1'' [], Value ''bulk'' [] 0 ''v1'' []] Store0)))
     = Value ''bulk'' [] 0 ''v1'' [] \<and>
   (\<exists>kvs. mset kvs = mset [(''f1'', ''v1''), (''f2'', ''v2'')] \<and>
      fst (hgetall (\<lambda>m. [(''f2'', ''v2''), (''f1'', ''v1'')]) [Value ''bulk'' [] 0 ''h'' []]
            (hset_calls ''h'' [(''f1'', ''v1''), (''f2'', ''v2'')] Store0))
        = Value ''array'' [] 0 [] (field_value_pairs kvs) \<and>
      length (field_value_pairs kvs) = 2 * length [(''f1'', ''v1''), (''f2'', ''v2'')])"
proof -
  have h: "[(''f1'', ''v1''), (''f2'', ''v2'')] \<noteq> [] \<and> distinct (map fst [(''f1'', ''v1''), (''f2'', ''v2'')]) \<and>
     HSETs Store0 ''h'' = None \<and>
     HSETs (hset_calls ''h'' [(''f1'', ''v1''), (''f2'', ''v2'')] Store0) ''h'' = Some [''f1'' \<mapsto> ''v1'', ''f2'' \<mapsto> ''v2''] \<and>
     range_order [''f1'' \<mapsto> ''v1'', ''f2'' \<mapsto> ''v2'']
       ((\<lambda>m. [(''f2'', ''v2''), (''f1'', ''v1'')]) [''f1'' \<mapsto> ''v1'', ''f2'' \<mapsto> ''v2''])"
    by (simp add: Store0_def hset_def Let_def range_order_def)
  note t = C9_hset_hget_hgetall [of "''h''" "''f1''" "''v1''" Store0
       "[(''f1'', ''v1''), (''f2'', ''v2'')]" "[''f1'' \<mapsto> ''v1'', ''f2'' \<mapsto> ''v2'']"
       "\<lambda>m. [(''f2'', ''v2''), (''f1'', ''v1'')]"]
  have c1: "fst (hget [Value ''bulk'' [] 0 ''h'' [], Value ''bulk'' [] 0 ''f1'' []]
          (snd (hset [Value ''bulk'' [] 0 ''h'' [], Value ''bulk'' [] 0 ''f1'' [], Value ''bulk'' [] 0 ''v1'' []] Store0)))
     = Value ''bulk'' [] 0 ''v1'' []"
    using t by (rule conjunct1)
  have c2: "\<exists>kvs. mset kvs = mset [(''f1'', ''v1''), (''f2'', ''v2'')] \<and>
      fst (hgetall (\<lambda>m. [(''f2'', ''v2''), (''f1'', ''v1'')]) [Value ''bulk'' [] 0 ''h'' []]
            (hset_calls ''h'' [(''f1'', ''v1''), (''f2'', ''v2'')] Store0))
        = Value ''array'' [] 0 [] (field_value_pairs kvs) \<and>
      length (field_value_pairs kvs) = 2 * length [(''f1'', ''v1''), (''f2'', ''v2'')]"
    using t h by (rule mp[OF conjunct2])
  from h c1 c2 show ?thesis by (rule conjI[OF _ conjI])
qed


subsection \<open>Replaying the append-only file\<close>

lemma Read_EOF: "stream r = [] \<Longrightarrow> Read r = (Inl EOF, r)"
  by (subst Read.simps) (simp add: ReadByte_EOF)

lemma stream_Nil: "stream r = [] \<Longrightarrow> r = \<lparr>buf = [], src = []\<rparr>"
  by (cases r) (simp add: stream_def)

lemma readBulk_short:
  assumes "buf r = Itoa (int n) @ [CR, LF] @ p" "p \<noteq> []" "length p < n" "int n \<le> maxAlloc"
    "src r = q @ CR # c # rest" "CR \<notin> set q"
  shows "fst (readBulk r) = Inr (Value ''bulk'' [] 0 (p @ replicate (n - length p) (CHR 0x00)) []) \<and>
         stream (snd (readBulk r)) = rest"
proof -
  have i: "readInteger r = (Inr (int n, int (length (Itoa (int n))) + 2), r\<lparr>buf := p\<rparr>)"
    using readInteger_buf[of r "Itoa (int n)" LF p "int n"] assms(1,4) Itoa_length_int64 by simp
  have rr: "ReaderRead n (r\<lparr>buf := p\<rparr>) = (p, r\<lparr>buf := []\<rparr>)"
    using assms(2,3) by (simp add: ReaderRead_def)
  have st: "stream (r\<lparr>buf := []\<rparr>) = q @ CR # c # rest"
    using assms(5) by (simp add: stream_def)
  have l: "fst (readLine (r\<lparr>buf := []\<rparr>)) = Inr ([] @ q, 0 + int (length q) + 2) \<and>
           stream (snd (readLine (r\<lparr>buf := []\<rparr>))) = rest"
    unfolding readLine_def using st assms(6) by (intro readLine_loop_stream) auto
  show ?thesis using i rr l assms(3,4)
    by (cases "readLine (r\<lparr>buf := []\<rparr>)") (simp add: readBulk_def Let_def)
qed

lemma Marshal_long_SET:
  "Marshal long_SET =
     ''*3'' @ [CR, LF] @ ''$3'' @ [CR, LF] @ ''SET'' @ [CR, LF] @ ''$1'' @ [CR, LF] @ ''k'' @ [CR, LF] @
     ''$4096'' @ [CR, LF] @ replicate 4096 (CHR ''a'') @ [CR, LF]"
  by (simp add: long_SET_def marshal_eval)

lemma Marshal_bulk: "Marshal (Value ''bulk'' [] 0 b []) = BULK # Itoa (int (length b)) @ [CR, LF] @ b @ [CR, LF]"
  by simp

lemma Read_long_SET:
  "fst (Read (newrESP (Marshal long_SET))) =
     Inr (Value ''array'' [] 0 []
       [Value ''bulk'' [] 0 ''SET'' [], Value ''bulk'' [] 0 ''k'' [],
        Value ''bulk'' [] 0 (replicate 4069 (CHR ''a'') @ replicate 27 (CHR 0x00)) []]) \<and>
   stream (snd (Read (newrESP (Marshal long_SET)))) = []"
proof -
  let ?A = "replicate 4069 (CHR ''a'')"
  let ?S = "replicate 27 (CHR ''a'') @ [CR, LF]"
  let ?e1 = "Value ''bulk'' [] 0 ''SET'' []" and ?e2 = "Value ''bulk'' [] 0 ''k'' []"
  let ?tail = "BULK # Itoa 4096 @ [CR, LF] @ ?A"
  define r0 where "r0 = \<lparr>buf = ARRAY # Itoa 3 @ CR # LF # Marshal ?e1 @ Marshal ?e2 @ ?tail, src = ?S\<rparr>"
  have tk: "take bufSize (Marshal long_SET) = buf r0"
    unfolding Marshal_long_SET by (simp add: r0_def bufSize_def marshal_eval)
  have dr: "drop bufSize (Marshal long_SET) = ?S"
    unfolding Marshal_long_SET by (simp add: bufSize_def)
  have f: "Read (newrESP (Marshal long_SET)) = Read r0"
    unfolding Read_fill tk dr by (simp add: r0_def)
  define r1 where "r1 = r0\<lparr>buf := Marshal ?e1 @ Marshal ?e2 @ ?tail\<rparr>"
  define r2 where "r2 = r0\<lparr>buf := Marshal ?e2 @ ?tail\<rparr>"
  define r3 where "r3 = r0\<lparr>buf := ?tail\<rparr>"
  define r4 where "r4 = r0\<lparr>buf := Itoa 4096 @ [CR, LF] @ ?A\<rparr>"
  have p3: "ParseInt (Itoa 3) = Inr 3" by (rule ParseInt_Itoa) simp_all
  have s0: "ReadByte r0 = (Inr ARRAY, r0\<lparr>buf := Itoa 3 @ CR # LF # Marshal ?e1 @ Marshal ?e2 @ ?tail\<rparr>)"
    by (rule ReadByte_buf) (simp add: r0_def)
  have s1: "readInteger (r0\<lparr>buf := Itoa 3 @ CR # LF # Marshal ?e1 @ Marshal ?e2 @ ?tail\<rparr>) =
              (Inr (3, int (length (Itoa 3)) + 2), r1)"
    using readInteger_buf[of "r0\<lparr>buf := Itoa 3 @ CR # LF # Marshal ?e1 @ Marshal ?e2 @ ?tail\<rparr>"
        "Itoa 3" LF "Marshal ?e1 @ Marshal ?e2 @ ?tail" 3] p3
    by (simp add: r1_def)
  have w: "wire ?e1" "wire ?e2" by simp_all
  have bd: "int (length (Marshal ?e1)) \<le> maxAlloc" "int (length (Marshal ?e2)) \<le> maxAlloc"
    by (simp_all add: marshal_eval maxAlloc_def)
  have "Read r1 = (Inr ?e1, r1\<lparr>buf := Marshal ?e2 @ ?tail\<rparr>)"
    by (rule Read_buf[OF w(1) bd(1)]) (simp add: r1_def del: Marshal.simps)
  then have e1: "Read r1 = (Inr ?e1, r2)" by (simp add: r1_def r2_def del: Marshal.simps)
  have "Read r2 = (Inr ?e2, r2\<lparr>buf := ?tail\<rparr>)"
    by (rule Read_buf[OF w(2) bd(2)]) (simp add: r2_def del: Marshal.simps)
  then have e2: "Read r2 = (Inr ?e2, r3)" by (simp add: r2_def r3_def del: Marshal.simps)
  have s3: "ReadByte r3 = (Inr BULK, r4)"
    using ReadByte_buf[of r3 BULK "Itoa 4096 @ [CR, LF] @ ?A"] by (simp add: r3_def r4_def)
  have b: "fst (readBulk r4) = Inr (Value ''bulk'' [] 0 (?A @ replicate (4096 - length ?A) (CHR 0x00)) []) \<and>
           stream (snd (readBulk r4)) = []"
    using readBulk_short[of r4 4096 ?A "replicate 27 (CHR ''a'')" LF "[]"]
    by (simp add: r4_def r0_def maxAlloc_def CR_def)
  obtain r5 where r5: "readBulk r4 = (Inr (Value ''bulk'' [] 0 (?A @ replicate 27 (CHR 0x00)) []), r5)"
      "stream r5 = []"
    using b by (cases "readBulk r4") auto
  have e3: "Read r3 = (Inr (Value ''bulk'' [] 0 (?A @ replicate 27 (CHR 0x00)) []), r5)"
    using s3 r5(1) by (subst Read.simps) (simp add: ARRAY_def BULK_def)
  have l3: "readArray_loop 3 3 [?e1, ?e2, Value ''bulk'' [] 0 (?A @ replicate 27 (CHR 0x00)) []] r5 =
             (Inr (Value ''array'' [] 0 [] [?e1, ?e2, Value ''bulk'' [] 0 (?A @ replicate 27 (CHR 0x00)) []]), r5)"
    by (subst readArray_loop.simps) simp
  have l2: "readArray_loop 2 3 [?e1, ?e2] r3 =
             (Inr (Value ''array'' [] 0 [] [?e1, ?e2, Value ''bulk'' [] 0 (?A @ replicate 27 (CHR 0x00)) []]), r5)"
    using e3 l3 by (subst readArray_loop.simps) simp
  have l1: "readArray_loop 1 3 [?e1] r2 =
             (Inr (Value ''array'' [] 0 [] [?e1, ?e2, Value ''bulk'' [] 0 (?A @ replicate 27 (CHR 0x00)) []]), r5)"
    using e2 l2 by (subst readArray_loop.simps) simp
  have l0: "readArray_loop 0 3 [] r1 =
             (Inr (Value ''array'' [] 0 [] [?e1, ?e2, Value ''bulk'' [] 0 (?A @ replicate 27 (CHR 0x00)) []]), r5)"
    using e1 l1 by (subst readArray_loop.simps) simp
  have "Read r0 = (Inr (Value ''array'' [] 0 [] [?e1, ?e2, Value ''bulk'' [] 0 (?A @ replicate 27 (CHR 0x00)) []]), r5)"
    using s0 s1 l0 by (subst Read.simps, subst readArray.simps) simp
  then show ?thesis using f r5(2) by simp
qed


lemma Aof_Read_loop_EOF: "stream r = [] \<Longrightarrow> Aof_Read_loop fn r st = (None, st, r)"
  by (subst Aof_Read_loop.simps) (simp add: Read_EOF)

lemma Aof_Read_single:
  assumes "fst (Read (newrESP s)) = Inr v" "stream (snd (Read (newrESP s))) = []" "fn v st = Inr st1"
  shows "Aof_Read fn \<lparr>file = s, pos = p\<rparr> st = (None, st1, \<lparr>file = s, pos = length s\<rparr>)"
proof -
  obtain r1 where r1: "Read (newrESP s) = (Inr v, r1)" "stream r1 = []"
    using assms(1,2) by (cases "Read (newrESP s)") auto
  have "Aof_Read_loop fn (newrESP s) st = Aof_Read_loop fn r1 st1"
    using r1(1) assms(3) by (subst Aof_Read_loop.simps) simp
  also have "\<dots> = (None, st1, r1)" using r1(2) by (rule Aof_Read_loop_EOF)
  finally show ?thesis using stream_Nil[OF r1(2)] by (simp add: Aof_Read_def)
qed

lemma ToUpper_ascii_SET: "ToUpper_ascii ''SET'' = ''SET''" "ToUpper_ascii ''HSET'' = ''HSET''"
  by (simp_all add: ToUpper_ascii_def)

text \<open>
  C2. Serving the request \<open>SET k v\<close> with a value v of 4096 bytes a on the empty store
  and the empty file stores v under k and writes the 4125 bytes of the request. Replaying
  that file on the empty store ends without an error and stores, under k, the first 4069
  bytes of v followed by 27 zero bytes: the buffer of the reader held only 4069 bytes of
  v when \<open>readBulk\<close> asked for 4096, and \<open>readBulk\<close> takes what one \<open>Read\<close> of the
  reader delivers. The replayed store differs from the live one.
\<close>

theorem C2_replay_long_SET:
  "serve_all ToUpper_ascii iter [long_SET] (Store0, \<lparr>file = [], pos = 0\<rparr>)
     = (Store0\<lparr>SETs := [''k'' \<mapsto> replicate 4096 (CHR ''a'')]\<rparr>,
        \<lparr>file = Marshal long_SET, pos = length (Marshal long_SET)\<rparr>) \<and>
   Aof_Read (replay_fn ToUpper_ascii iter) \<lparr>file = Marshal long_SET, pos = length (Marshal long_SET)\<rparr> Store0
     = (None, Store0\<lparr>SETs := [''k'' \<mapsto> replicate 4069 (CHR ''a'') @ replicate 27 (CHR 0x00)]\<rparr>,
        \<lparr>file = Marshal long_SET, pos = length (Marshal long_SET)\<rparr>) \<and>
   replicate 4096 (CHR ''a'') \<noteq> replicate 4069 (CHR ''a'') @ replicate 27 (CHR 0x00)"
proof (intro conjI)
  show "serve_all ToUpper_ascii iter [long_SET] (Store0, \<lparr>file = [], pos = 0\<rparr>)
     = (Store0\<lparr>SETs := [''k'' \<mapsto> replicate 4096 (CHR ''a'')]\<rparr>,
        \<lparr>file = Marshal long_SET, pos = length (Marshal long_SET)\<rparr>)"
    by (simp add: serve_def Handlers_def ToUpper_ascii_SET set_h_def Aof_Write_def Let_def Store0_def
        long_SET_def del: Marshal.simps)
next
  have "replay_fn ToUpper_ascii iter
          (Value ''array'' [] 0 []
            [Value ''bulk'' [] 0 ''SET'' [], Value ''bulk'' [] 0 ''k'' [],
             Value ''bulk'' [] 0 (replicate 4069 (CHR ''a'') @ replicate 27 (CHR 0x00)) []]) Store0
        = Inr (Store0\<lparr>SETs := [''k'' \<mapsto> replicate 4069 (CHR ''a'') @ replicate 27 (CHR 0x00)]\<rparr>)"
    by (simp add: replay_fn_def Handlers_def ToUpper_ascii_SET set_h_def Let_def Store0_def)
  then show "Aof_Read (replay_fn ToUpper_ascii iter) \<lparr>file = Marshal long_SET, pos = length (Marshal long_SET)\<rparr> Store0
     = (None, Store0\<lparr>SETs := [''k'' \<mapsto> replicate 4069 (CHR ''a'') @ replicate 27 (CHR 0x00)]\<rparr>,
        \<lparr>file = Marshal long_SET, pos = length (Marshal long_SET)\<rparr>)"
    using Read_long_SET by (intro Aof_Read_single) auto
next
  show "replicate 4096 (CHR ''a'') \<noteq> replicate 4069 (CHR ''a'') @ replicate 27 (CHR 0x00)"
  proof
    assume "replicate 4096 (CHR ''a'') = replicate 4069 (CHR ''a'') @ replicate 27 (CHR 0x00)"
    then have "last (replicate 4096 (CHR ''a'')) = last (replicate 4069 (CHR ''a'') @ replicate 27 (CHR 0x00))"
      by (rule arg_cong)
    then show False by simp
  qed
qed


lemma Reader_buf_Nil: "(r :: Reader)\<lparr>buf := []\<rparr> = \<lparr>buf = [], src = src r\<rparr>"
  by (cases r) simp

lemma readLine_loop_fill:
  "readLine_loop line n \<lparr>buf = [], src = s\<rparr> =
   readLine_loop line n \<lparr>buf = take bufSize s, src = drop bufSize s\<rparr>"
  by (subst (1 2) readLine_loop.simps) (simp add: ReadByte_fill)

lemma readLine_src:
  assumes "buf r = []" "src r = q @ CR # c # rest" "length (src r) \<le> bufSize" "CR \<notin> set q"
  shows "readLine r = (Inr (q, int (length q) + 2), \<lparr>buf = rest, src = []\<rparr>)"
proof -
  have r: "r = \<lparr>buf = [], src = src r\<rparr>" using assms(1) by (cases r) simp
  have "readLine r = readLine_loop [] 0 \<lparr>buf = take bufSize (src r), src = drop bufSize (src r)\<rparr>"
    unfolding readLine_def by (subst r) (rule readLine_loop_fill)
  also have "\<dots> = readLine_loop [] 0 \<lparr>buf = q @ CR # c # rest, src = []\<rparr>"
    using assms(2,3) by simp
  also have "\<dots> = (Inr ([] @ q, 0 + int (length q) + 2), \<lparr>buf = q @ CR # c # rest, src = []\<rparr>\<lparr>buf := rest\<rparr>)"
    using assms(4) by (intro readLine_loop_buf) auto
  finally show ?thesis by simp
qed

lemma readBulk_short_src:
  assumes "buf r = Itoa (int n) @ [CR, LF] @ p" "p \<noteq> []" "length p < n" "int n \<le> maxAlloc"
    "src r = q @ CR # c # rest" "CR \<notin> set q" "length (src r) \<le> bufSize"
  shows "readBulk r = (Inr (Value ''bulk'' [] 0 (p @ replicate (n - length p) (CHR 0x00)) []),
                       \<lparr>buf = rest, src = []\<rparr>)"
proof -
  have i: "readInteger r = (Inr (int n, int (length (Itoa (int n))) + 2), r\<lparr>buf := p\<rparr>)"
    using readInteger_buf[of r "Itoa (int n)" LF p "int n"] assms(1,4) Itoa_length_int64 by simp
  have rr: "ReaderRead n (r\<lparr>buf := p\<rparr>) = (p, r\<lparr>buf := []\<rparr>)"
    using assms(2,3) by (simp add: ReaderRead_def)
  have l: "readLine (r\<lparr>buf := []\<rparr>) = (Inr (q, int (length q) + 2), \<lparr>buf = rest, src = []\<rparr>)"
    using assms(5,6,7) by (intro readLine_src) simp_all
  show ?thesis using i rr l assms(3,4) by (simp add: readBulk_def Let_def)
qed

lemma Marshal_crafted_SET:
  "Marshal crafted_SET =
     ''*2'' @ [CR, LF] @ ''$3'' @ [CR, LF] @ ''SET'' @ [CR, LF] @
     ''$4103'' @ [CR, LF] @ replicate 4076 (CHR ''a'') @ [CR, LF] @ embedded_SET @ [CR, LF]"
  by (simp add: crafted_SET_def embedded_SET_def marshal_eval)

lemma embedded_SET_Marshal:
  "embedded_SET @ [CR, LF] =
     Marshal (Value ''array'' [] 0 [] [Value ''bulk'' [] 0 ''SET'' [], Value ''bulk'' [] 0 ''x'' [], Value ''bulk'' [] 0 ''y'' []])"
  by (simp add: embedded_SET_def marshal_eval)

lemma Read_crafted_SET:
  "Read (newrESP (Marshal crafted_SET)) =
     (Inr (Value ''array'' [] 0 []
        [Value ''bulk'' [] 0 ''SET'' [],
         Value ''bulk'' [] 0 (replicate 4076 (CHR ''a'') @ replicate 27 (CHR 0x00)) []]),
      \<lparr>buf = embedded_SET @ [CR, LF], src = []\<rparr>)"
proof -
  let ?A = "replicate 4076 (CHR ''a'')"
  let ?S = "[CR, LF] @ embedded_SET @ [CR, LF]"
  let ?e1 = "Value ''bulk'' [] 0 ''SET'' []"
  let ?e2 = "Value ''bulk'' [] 0 (?A @ replicate 27 (CHR 0x00)) []"
  let ?tail = "BULK # Itoa 4103 @ [CR, LF] @ ?A"
  define r0 where "r0 = \<lparr>buf = ARRAY # Itoa 2 @ CR # LF # Marshal ?e1 @ ?tail, src = ?S\<rparr>"
  have tk: "take bufSize (Marshal crafted_SET) = buf r0"
    unfolding Marshal_crafted_SET by (simp add: r0_def bufSize_def marshal_eval)
  have dr: "drop bufSize (Marshal crafted_SET) = ?S"
    unfolding Marshal_crafted_SET by (simp add: bufSize_def)
  have f: "Read (newrESP (Marshal crafted_SET)) = Read r0"
    unfolding Read_fill tk dr by (simp add: r0_def)
  define r1 where "r1 = r0\<lparr>buf := Marshal ?e1 @ ?tail\<rparr>"
  define r3 where "r3 = r0\<lparr>buf := ?tail\<rparr>"
  define r4 where "r4 = r0\<lparr>buf := Itoa 4103 @ [CR, LF] @ ?A\<rparr>"
  define r5 where "r5 = \<lparr>buf = embedded_SET @ [CR, LF], src = []\<rparr>"
  have p2: "ParseInt (Itoa 2) = Inr 2" by (rule ParseInt_Itoa) simp_all
  have s0: "ReadByte r0 = (Inr ARRAY, r0\<lparr>buf := Itoa 2 @ CR # LF # Marshal ?e1 @ ?tail\<rparr>)"
    by (rule ReadByte_buf) (simp add: r0_def)
  have s1: "readInteger (r0\<lparr>buf := Itoa 2 @ CR # LF # Marshal ?e1 @ ?tail\<rparr>) =
              (Inr (2, int (length (Itoa 2)) + 2), r1)"
    using readInteger_buf[of "r0\<lparr>buf := Itoa 2 @ CR # LF # Marshal ?e1 @ ?tail\<rparr>"
        "Itoa 2" LF "Marshal ?e1 @ ?tail" 2] p2
    by (simp add: r1_def)
  have w: "wire ?e1" by simp
  have bd: "int (length (Marshal ?e1)) \<le> maxAlloc" by (simp add: marshal_eval maxAlloc_def)
  have "Read r1 = (Inr ?e1, r1\<lparr>buf := ?tail\<rparr>)"
    by (rule Read_buf[OF w bd]) (simp add: r1_def del: Marshal.simps)
  then have e1: "Read r1 = (Inr ?e1, r3)" by (simp add: r1_def r3_def del: Marshal.simps)
  have s3: "ReadByte r3 = (Inr BULK, r4)"
    using ReadByte_buf[of r3 BULK "Itoa 4103 @ [CR, LF] @ ?A"] by (simp add: r3_def r4_def)
  have b: "readBulk r4 = (Inr (Value ''bulk'' [] 0 (?A @ replicate (4103 - length ?A) (CHR 0x00)) []), r5)"
    unfolding r5_def
    using readBulk_short_src[of r4 4103 ?A "[]" LF "embedded_SET @ [CR, LF]"]
    by (simp add: r4_def r0_def maxAlloc_def bufSize_def embedded_SET_def)
  have e2: "Read r3 = (Inr ?e2, r5)"
    using s3 b by (subst Read.simps) (simp add: ARRAY_def BULK_def)
  have l2: "readArray_loop 2 2 [?e1, ?e2] r5 = (Inr (Value ''array'' [] 0 [] [?e1, ?e2]), r5)"
    by (subst readArray_loop.simps) simp
  have l1: "readArray_loop 1 2 [?e1] r3 = (Inr (Value ''array'' [] 0 [] [?e1, ?e2]), r5)"
    using e2 l2 by (subst readArray_loop.simps) simp
  have l0: "readArray_loop 0 2 [] r1 = (Inr (Value ''array'' [] 0 [] [?e1, ?e2]), r5)"
    using e1 l1 by (subst readArray_loop.simps) simp
  have "Read r0 = (Inr (Value ''array'' [] 0 [] [?e1, ?e2]), r5)"
    using s0 s1 l0 by (subst Read.simps, subst readArray.simps) simp
  then show ?thesis using f by (simp add: r5_def)
qed

text \<open>
  C10. The request \<open>crafted_SET\<close> has the command \<open>SET\<close> and one argument. Served on the
  empty store and the empty file it is answered with the error of \<open>set\<close>, leaves the
  store empty, and is written to the file all the same. Replaying that file on the empty
  store ends without an error, but the store is not unchanged: it maps x to y. The reader
  held 4076 bytes of the argument when \<open>readBulk\<close> asked for 4103; the rest of the entry
  was then decoded as a request of its own, \<open>SET x y\<close>.
\<close>

theorem C10_replay_crafted_SET:
  "serve ToUpper_ascii iter crafted_SET (Store0, \<lparr>file = [], pos = 0\<rparr>)
     = (Some (Value ''error'' ''ERR wrong number of arguments for 'set' command'' 0 [] []), Store0,
        \<lparr>file = Marshal crafted_SET, pos = length (Marshal crafted_SET)\<rparr>) \<and>
   Aof_Read (replay_fn ToUpper_ascii iter) \<lparr>file = Marshal crafted_SET, pos = length (Marshal crafted_SET)\<rparr> Store0
     = (None, Store0\<lparr>SETs := [''x'' \<mapsto> ''y'']\<rparr>,
        \<lparr>file = Marshal crafted_SET, pos = length (Marshal crafted_SET)\<rparr>) \<and>
   Store0\<lparr>SETs := [''x'' \<mapsto> ''y'']\<rparr> \<noteq> Store0"
proof (intro conjI)
  show "serve ToUpper_ascii iter crafted_SET (Store0, \<lparr>file = [], pos = 0\<rparr>)
     = (Some (Value ''error'' ''ERR wrong number of arguments for 'set' command'' 0 [] []), Store0,
        \<lparr>file = Marshal crafted_SET, pos = length (Marshal crafted_SET)\<rparr>)"
    by (simp add: serve_def Handlers_def ToUpper_ascii_SET set_h_def Aof_Write_def Let_def
        crafted_SET_def del: Marshal.simps)
next
  let ?v1 = "Value ''array'' [] 0 []
        [Value ''bulk'' [] 0 ''SET'' [],
         Value ''bulk'' [] 0 (replicate 4076 (CHR ''a'') @ replicate 27 (CHR 0x00)) []]"
  let ?v2 = "Value ''array'' [] 0 [] [Value ''bulk'' [] 0 ''SET'' [], Value ''bulk'' [] 0 ''x'' [], Value ''bulk'' [] 0 ''y'' []]"
  let ?r5 = "\<lparr>buf = embedded_SET @ [CR, LF], src = []\<rparr>"
  let ?fn = "replay_fn ToUpper_ascii iter"
  have f1: "?fn ?v1 Store0 = Inr Store0"
    by (simp add: replay_fn_def Handlers_def ToUpper_ascii_SET set_h_def Let_def)
  have f2: "?fn ?v2 Store0 = Inr (Store0\<lparr>SETs := [''x'' \<mapsto> ''y'']\<rparr>)"
    by (simp add: replay_fn_def Handlers_def ToUpper_ascii_SET set_h_def Let_def Store0_def)
  have w: "wire ?v2" by simp
  have bd: "int (length (Marshal ?v2)) \<le> maxAlloc" by (simp add: marshal_eval maxAlloc_def)
  have "Read ?r5 = (Inr ?v2, ?r5\<lparr>buf := []\<rparr>)"
    by (rule Read_buf[OF w bd]) (simp add: embedded_SET_Marshal del: Marshal.simps)
  then have rd2: "Read ?r5 = (Inr ?v2, \<lparr>buf = [], src = []\<rparr>)" by simp
  have "Aof_Read_loop ?fn (newrESP (Marshal crafted_SET)) Store0 = Aof_Read_loop ?fn ?r5 Store0"
    using Read_crafted_SET f1 by (subst Aof_Read_loop.simps) simp
  also have "\<dots> = Aof_Read_loop ?fn \<lparr>buf = [], src = []\<rparr> (Store0\<lparr>SETs := [''x'' \<mapsto> ''y'']\<rparr>)"
    using rd2 f2 by (subst Aof_Read_loop.simps) simp
  also have "\<dots> = (None, Store0\<lparr>SETs := [''x'' \<mapsto> ''y'']\<rparr>, \<lparr>buf = [], src = []\<rparr>)"
    by (rule Aof_Read_loop_EOF) (simp add: stream_def)
  finally show "Aof_Read ?fn \<lparr>file = Marshal crafted_SET, pos = length (Marshal crafted_SET)\<rparr> Store0
     = (None, Store0\<lparr>SETs := [''x'' \<mapsto> ''y'']\<rparr>,
        \<lparr>file = Marshal crafted_SET, pos = length (Marshal crafted_SET)\<rparr>)"
    by (simp add: Aof_Read_def)
next
  show "Store0\<lparr>SETs := [''x'' \<mapsto> ''y'']\<rparr> \<noteq> Store0"
  proof
    assume "Store0\<lparr>SETs := [''x'' \<mapsto> ''y'']\<rparr> = Store0"
    then have "SETs (Store0\<lparr>SETs := [''x'' \<mapsto> ''y'']\<rparr>) ''x'' = SETs Store0 ''x''" by simp
    then show False by (simp add: Store0_def)
  qed
qed


text \<open>
  Within the buffer the file is replayed faithfully. When the requests served are bulk
  strings and arrays of them and the file written is no longer than the reader's buffer,
  replaying the file on the empty store ends without an error in the store of the live
  run. A request with the command \<open>SET\<close> or \<open>HSET\<close> and a wrong number of arguments is
  answered with an error and written to the file, and replaying it changes no store when
  its encoding fits into the buffer.
\<close>

lemma Aof_Write_append:
  "pos aof = length (file aof) \<Longrightarrow>
   Aof_Write v aof = \<lparr>file = file aof @ Marshal v, pos = length (file aof @ Marshal v)\<rparr>"
  by (simp add: Aof_Write_def Let_def)

lemma handler_reads:
  "snd (ping args st) = st" "snd (get args st) = st" "snd (hget args st) = st"
  "snd (hgetall iter args st) = st"
  by (simp_all add: ping_def get_def hget_def hgetall_def Let_def split: option.splits)

lemma serve_not_logged:
  assumes "\<not> logged ToUpper req"
  shows "snd (serve ToUpper iter req (st, aof)) = (st, aof)"
proof (cases "typ' req = ''array'' \<and> array req \<noteq> []")
  case False
  then show ?thesis by (auto simp: serve_def)
next
  case True
  show ?thesis
  proof (cases "Handlers iter (ToUpper (bulk (array req ! 0)))")
    case None
    with True show ?thesis by (simp add: serve_def)
  next
    case (Some h)
    from Handlers_cases[OF Some] assms True
    have "h = ping \<or> h = get \<or> h = hget \<or> h = hgetall iter" by (auto simp: logged_def)
    then have h: "snd (h (tl (array req)) st) = st" using handler_reads by auto
    have c: "ToUpper (bulk (array req ! 0)) \<noteq> ''SET''" "ToUpper (bulk (array req ! 0)) \<noteq> ''HSET''"
      using assms True by (auto simp: logged_def)
    obtain x where hx: "h (tl (array req)) st = (x, st)"
      using h by (cases "h (tl (array req)) st") auto
    show ?thesis using True Some hx c
      by (simp add: serve_def Let_def)
  qed
qed

lemma serve_logged:
  assumes "logged ToUpper req"
  shows "\<exists>st1. replay_fn ToUpper iter req st = Inr st1 \<and>
               snd (serve ToUpper iter req (st, aof)) = (st1, Aof_Write req aof)"
proof -
  from assms obtain v0 args where a: "typ' req = ''array''" "array req = v0 # args"
    and c: "ToUpper (bulk v0) = ''SET'' \<or> ToUpper (bulk v0) = ''HSET''"
    by (cases "array req") (auto simp: logged_def)
  from c obtain h where h: "Handlers iter (ToUpper (bulk v0)) = Some h"
    by (auto simp: Handlers_def)
  have "replay_fn ToUpper iter req st = Inr (snd (h args st))"
    using a h by (simp add: replay_fn_def Let_def)
  moreover have "snd (serve ToUpper iter req (st, aof)) = (snd (h args st), Aof_Write req aof)"
    using a h c by (auto simp: serve_def Let_def split: prod.splits)
  ultimately show ?thesis by simp
qed

lemma serve_all_log:
  assumes "pos aof = length (file aof)"
  shows "\<exists>st1. replay_all (replay_fn ToUpper iter) (filter (logged ToUpper) reqs) st = Inr st1 \<and>
     serve_all ToUpper iter reqs (st, aof) =
       (st1, \<lparr>file = file aof @ concat (map Marshal (filter (logged ToUpper) reqs)),
              pos = length (file aof @ concat (map Marshal (filter (logged ToUpper) reqs)))\<rparr>)"
  using assms
proof (induction reqs arbitrary: st aof)
  case Nil
  then show ?case by simp
next
  case (Cons req reqs)
  show ?case
  proof (cases "logged ToUpper req")
    case False
    then show ?thesis
      using Cons.IH[OF Cons.prems, of st] serve_not_logged[of ToUpper req iter st aof] by simp
  next
    case True
    obtain st1 where s: "replay_fn ToUpper iter req st = Inr st1"
        "snd (serve ToUpper iter req (st, aof)) = (st1, Aof_Write req aof)"
      using serve_logged[OF True, of iter st aof] by blast
    let ?aof1 = "\<lparr>file = file aof @ Marshal req, pos = length (file aof @ Marshal req)\<rparr>"
    have w: "Aof_Write req aof = ?aof1" using Cons.prems by (rule Aof_Write_append)
    have p: "pos ?aof1 = length (file ?aof1)" by simp
    from Cons.IH[OF p, of st1] True s w show ?thesis by simp
  qed
qed

lemma Aof_Read_loop_fill:
  "Aof_Read_loop fn (newrESP s) st = Aof_Read_loop fn \<lparr>buf = take bufSize s, src = drop bufSize s\<rparr> st"
  by (subst (1 2) Aof_Read_loop.simps) (simp add: Read_fill)

lemma Aof_Read_loop_buf:
  assumes "\<forall>w \<in> set ws. wire w" "int (length (concat (map Marshal ws))) \<le> maxAlloc"
    "buf r = concat (map Marshal ws)" "src r = []" "replay_all fn ws st = Inr st1"
  shows "Aof_Read_loop fn r st = (None, st1, \<lparr>buf = [], src = []\<rparr>)"
  using assms
proof (induction ws arbitrary: r st)
  case Nil
  then have "stream r = []" by (simp add: stream_def)
  then show ?case using Nil.prems(5) Aof_Read_loop_EOF[of r fn st] stream_Nil[of r] by simp
next
  case (Cons w ws)
  obtain st2 where f: "fn w st = Inr st2" "replay_all fn ws st2 = Inr st1"
    using Cons.prems(5) by (cases "fn w st") auto
  have bw: "int (length (Marshal w)) \<le> maxAlloc" using Cons.prems(2) by simp
  have rd: "Read r = (Inr w, r\<lparr>buf := concat (map Marshal ws)\<rparr>)"
    using Read_buf[of w r "concat (map Marshal ws)"] Cons.prems(1,3) bw by simp
  have "Aof_Read_loop fn (r\<lparr>buf := concat (map Marshal ws)\<rparr>) st2 = (None, st1, \<lparr>buf = [], src = []\<rparr>)"
    using Cons.prems(1,2,4) f(2) by (intro Cons.IH) simp_all
  then show ?case using rd f(1) by (subst Aof_Read_loop.simps) simp
qed

lemma replay_small_log:
  assumes "\<forall>req \<in> set reqs. wire req"
    "serve_all ToUpper iter reqs (Store0, \<lparr>file = [], pos = 0\<rparr>) = (st, aof)"
    "length (file aof) \<le> bufSize"
  shows "Aof_Read (replay_fn ToUpper iter) aof Store0 = (None, st, aof)"
proof -
  let ?ws = "filter (logged ToUpper) reqs"
  let ?log = "concat (map Marshal ?ws)"
  obtain st1 where r: "replay_all (replay_fn ToUpper iter) ?ws Store0 = Inr st1"
    and s: "serve_all ToUpper iter reqs (Store0, \<lparr>file = [], pos = 0\<rparr>) =
              (st1, \<lparr>file = [] @ ?log, pos = length ([] @ ?log)\<rparr>)"
    using serve_all_log[of "\<lparr>file = [], pos = 0\<rparr>" ToUpper iter reqs Store0] by auto
  from s assms(2) have st: "st = st1" and aof: "aof = \<lparr>file = ?log, pos = length ?log\<rparr>" by simp_all
  have len: "length ?log \<le> bufSize" using assms(3) aof by simp
  have w: "\<forall>w \<in> set ?ws. wire w" using assms(1) by simp
  have "Aof_Read_loop (replay_fn ToUpper iter) (newrESP ?log) Store0 =
        Aof_Read_loop (replay_fn ToUpper iter) \<lparr>buf = ?log, src = []\<rparr> Store0"
    using len by (simp add: Aof_Read_loop_fill)
  also have "\<dots> = (None, st1, \<lparr>buf = [], src = []\<rparr>)"
    using w r bufSize_le_maxAlloc[OF len] by (intro Aof_Read_loop_buf) simp_all
  finally show ?thesis by (simp add: Aof_Read_def aof st)
qed


lemma wrong_arity_replay_fn:
  assumes "wrong_arity_write ToUpper req"
  shows "replay_fn ToUpper iter req st = Inr st"
proof -
  from assms obtain v0 args where a: "array req = v0 # args"
    by (cases "array req") (auto simp: wrong_arity_write_def)
  from assms a show ?thesis
    by (auto simp: wrong_arity_write_def replay_fn_def Handlers_def Let_def set_h_def hset_def)
qed

lemma wrong_arity_serve:
  assumes "wrong_arity_write ToUpper req" "pos aof = length (file aof)"
  shows "\<exists>rsp. typ' rsp = ''error'' \<and>
           serve ToUpper iter req (st, aof) =
             (Some rsp, st, \<lparr>file = file aof @ Marshal req, pos = length (file aof @ Marshal req)\<rparr>)"
proof -
  from assms(1) obtain v0 args where a: "array req = v0 # args"
    by (cases "array req") (auto simp: wrong_arity_write_def)
  from assms(1) a show ?thesis
    unfolding Aof_Write_append[OF assms(2), of req, symmetric]
    by (auto simp: wrong_arity_write_def serve_def Handlers_def Let_def set_h_def hset_def)
qed

lemma wrong_arity_replay_small:
  assumes "wrong_arity_write ToUpper req" "wire req" "length (Marshal req) \<le> bufSize"
  shows "Aof_Read (replay_fn ToUpper iter) \<lparr>file = Marshal req, pos = p\<rparr> st =
           (None, st, \<lparr>file = Marshal req, pos = length (Marshal req)\<rparr>)"
proof -
  let ?fn = "replay_fn ToUpper iter"
  have ra: "replay_all ?fn [req] st = Inr st"
    using wrong_arity_replay_fn[OF assms(1), of iter st] by simp
  have "Aof_Read_loop ?fn (newrESP (Marshal req)) st =
        Aof_Read_loop ?fn \<lparr>buf = Marshal req, src = []\<rparr> st"
    using assms(3) by (simp add: Aof_Read_loop_fill)
  also have "\<dots> = (None, st, \<lparr>buf = [], src = []\<rparr>)"
    using assms(2) ra bufSize_le_maxAlloc[OF assms(3)]
    by (intro Aof_Read_loop_buf[where ws = "[req]"]) simp_all
  finally show ?thesis by (simp add: Aof_Read_def)
qed


subsection \<open>The connection loop\<close>

text \<open>
  C4 (as stated). The request \<open>FOOP\<close>, the decoding of \<open>*1 CR LF $4 CR LF FOOP CR LF\<close>,
  is answered with a simple string of empty text, not with an error value.
\<close>

theorem C4_unknown_command_counterexample:
  "fst (Read (newrESP (''*1'' @ [CR, LF] @ ''$4'' @ [CR, LF] @ ''FOOP'' @ [CR, LF])))
     = Inr (Value ''array'' [] 0 [] [Value ''bulk'' [] 0 ''FOOP'' []]) \<and>
   fst (serve ToUpper_ascii (\<lambda>m. []) (Value ''array'' [] 0 [] [Value ''bulk'' [] 0 ''FOOP'' []])
          (Store0, \<lparr>file = [], pos = 0\<rparr>))
     = Some (Value ''string'' [] 0 [] []) \<and>
   typ' (Value ''string'' [] 0 [] []) \<noteq> ''error''"
  by (simp add: read_eval serve_def Handlers_def ToUpper_ascii_def)

text \<open>
  C4 (amended). For every request (a non-empty array) whose command name is not in the
  handler mapping, the reply is the simple string of empty text, the store is unchanged
  and nothing is written to the append-only file.
\<close>

theorem C4_unknown_command:
  assumes "typ' req = ''array''" "array req \<noteq> []"
    "Handlers iter (ToUpper (bulk (array req ! 0))) = None"
  shows "serve ToUpper iter req (st, aof) = (Some (Value ''string'' [] 0 [] []), st, aof)"
  using assms by (simp add: serve_def)


theorem C4_unknown_command_witness:
  "typ' (Value ''array'' [] 0 [] [Value ''bulk'' [] 0 ''FOOP'' []]) = ''array'' \<and>
   array (Value ''array'' [] 0 [] [Value ''bulk'' [] 0 ''FOOP'' []]) \<noteq> [] \<and>
   Handlers (\<lambda>m. []) (ToUpper_ascii (bulk (array (Value ''array'' [] 0 [] [Value ''bulk'' [] 0 ''FOOP'' []]) ! 0))) = None \<and>
   serve ToUpper_ascii (\<lambda>m. []) (Value ''array'' [] 0 [] [Value ''bulk'' [] 0 ''FOOP'' []])
      (Store0, \<lparr>file = [], pos = 0\<rparr>)
     = (Some (Value ''string'' [] 0 [] []), Store0, \<lparr>file = [], pos = 0\<rparr>)"
  using C4_unknown_command [of "Value ''array'' [] 0 [] [Value ''bulk'' [] 0 ''FOOP'' []]"
      "\<lambda>m. []" ToUpper_ascii Store0 "\<lparr>file = [], pos = 0\<rparr>"]
  by (simp add: Handlers_def ToUpper_ascii_def)

end
